theory Spec2Isabelle
  imports Main
begin

section \<open>Strings, errors and results\<close>

text \<open>
  Go strings are byte sequences: a \<^typ>\<open>string\<close> here is the list of bytes.
  The two bytes the program treats specially are the newline and the carriage return.
\<close>

abbreviation NL :: char where "NL \<equiv> CHR 0x0A"
abbreviation CR :: char where "CR \<equiv> CHR 0x0D"

text \<open>
  Go error values: \<open>io.EOF\<close>, \<open>bufio.ErrTooLong\<close>, and any other error with its message.
\<close>

datatype error = EOF | ErrTooLong | Err string

text \<open>
  The ways a call does not return a value: it returns a Go error, it panics (an index or a
  slice bound out of range), or it never returns because a read of a pseudo-terminal blocks
  for ever.
\<close>

datatype failure = Error error | Panic | Hang

text \<open>\<open>strings.HasPrefix\<close>: \<open>len(s) >= len(prefix) && s[:len(prefix)] == prefix\<close>.\<close>

definition HasPrefix :: "string \<Rightarrow> string \<Rightarrow> bool" where
  "HasPrefix s p = (length p \<le> length s \<and> take (length p) s = p)"

text \<open>
  \<open>strings.Split(s, sep)\<close> for a separator of one byte, the only kind the program uses:
  the pieces between every two occurrences of the separator, empty pieces kept, so that
  the result is never empty.
\<close>

fun Split :: "string \<Rightarrow> char \<Rightarrow> string list" where
  "Split [] sep = [[]]"
| "Split (c # cs) sep =
     (if c = sep then [] # Split cs sep
      else (case Split cs sep of [] \<Rightarrow> [[c]] | t # ts \<Rightarrow> (c # t) # ts))"

text \<open>\<open>strings.Join(elems, sep)\<close>.\<close>

fun Join :: "string list \<Rightarrow> string \<Rightarrow> string" where
  "Join [] sep = []"
| "Join [x] sep = x"
| "Join (x # y # zs) sep = x @ sep @ Join (y # zs) sep"

section \<open>The pseudo-terminal and \<open>execCommand\<close>\<close>

text \<open>
  What the operating system answers when a command is started on a pseudo-terminal:
  \<open>pty.StartWithSize\<close> fails with an error or gives a terminal; the terminal answers the
  successive calls of \<open>Read\<close> with bytes and an optional error (the count \<open>n\<close> of the
  source is the length of the bytes); the child ends with an exit status. When the answers
  are used up the next \<open>Read\<close> blocks for ever.
\<close>

record pty =
  start_error :: "error option"
  reads :: "(string \<times> error option) list"
  exit_status :: int

text \<open>
  The loop of lines 74 to 83: a read error other than \<open>io.EOF\<close> is returned, a read of
  no byte ends the loop, any other read is appended to \<open>out\<close>.
\<close>

fun read_loop :: "(string \<times> error option) list \<Rightarrow> string \<Rightarrow> failure + string" where
  "read_loop [] out = Inl Hang"
| "read_loop ((buf, err) # rs) out =
     (if err \<noteq> None \<and> err \<noteq> Some EOF then Inl (Error (the err))
      else if length buf = 0 then Inr out
      else read_loop rs (out @ buf))"

text \<open>
  \<open>execCommand\<close> (lines 50 to 92). The parameter \<open>start\<close> is the operating system: given
  the state of the world, the program name and the arguments, it gives the terminal's
  behaviour and the world after the command ran. The source's \<open>cmd[0]\<close> panics on an empty
  command. What the function prints when \<open>print\<close> is set is not part of the model.
\<close>

definition execCommand ::
  "('w \<Rightarrow> string \<Rightarrow> string list \<Rightarrow> pty \<times> 'w) \<Rightarrow> 'w \<Rightarrow> string list \<Rightarrow> (failure + string) \<times> 'w" where
  "execCommand start w cmd =
     (let args = (if length cmd > 1 then drop 1 cmd else [])
      in if cmd = [] then (Inl Panic, w)
         else (case start w (cmd ! 0) args of (p, w') \<Rightarrow>
           (case start_error p of
              Some e \<Rightarrow> (Inl (Error e), w')
            | None \<Rightarrow>
               (case read_loop (reads p) [] of
                  Inl f \<Rightarrow> (Inl f, w')
                | Inr out \<Rightarrow> (Inr (filter (\<lambda>c. c \<noteq> CR) out), w')))))"


section \<open>The scan of \<open>readup\<close>\<close>

text \<open>The three variables of the loop of \<open>readup\<close> (lines 105 to 107).\<close>

record scan_state =
  lines :: "string list"
  inCodeBlock :: bool
  codeBlock :: "string list"

definition fence :: string where
  "fence = ''```''"

text \<open>
  Line 136: the command of a block, from its first inner line: the line without its first two
  bytes, split at every space.
\<close>

definition codeBlockCommand :: "string \<Rightarrow> string list" where
  "codeBlockCommand l = Split (drop 2 l) CHR '' ''"

text \<open>
  One iteration of the loop (lines 112 to 149) on the line \<open>line\<close>. The index expression
  \<open>codeBlock[1]\<close> panics when the block has fewer than two lines, and the slice expression
  \<open>lines[:blockStart]\<close> panics when \<open>blockStart\<close> is negative or beyond the slice (the model
  panics beyond the length, Go beyond the capacity; neither happens, see \<open>scan_loop_inv\<close>).
\<close>

definition step ::
  "('w \<Rightarrow> string \<Rightarrow> string list \<Rightarrow> pty \<times> 'w) \<Rightarrow> scan_state \<Rightarrow> 'w \<Rightarrow> string
     \<Rightarrow> (failure + scan_state) \<times> 'w" where
  "step start st w line =
     (let lines1 = lines st @ [line];
          codeBlock1 = (if inCodeBlock st then codeBlock st @ [line] else codeBlock st)
      in if \<not> inCodeBlock st \<and> HasPrefix line fence
         then (Inr \<lparr>lines = lines1, inCodeBlock = True, codeBlock = [line]\<rparr>, w)
         else if inCodeBlock st \<and> HasPrefix line fence
         then (if length codeBlock1 < 2 then (Inl Panic, w)
               else if HasPrefix (codeBlock1 ! 1) ''> ''
               then (case execCommand start w (codeBlockCommand (codeBlock1 ! 1)) of
                       (Inl f, w') \<Rightarrow> (Inl f, w')
                     | (Inr codeBlockOutput, w') \<Rightarrow>
                         (let blockStart = int (length lines1) - int (length codeBlock1) + 2
                          in if blockStart < 0 \<or> int (length lines1) < blockStart
                             then (Inl Panic, w')
                             else (Inr \<lparr>lines = take (nat blockStart) lines1 @ [codeBlockOutput, fence],
                                        inCodeBlock = False, codeBlock = codeBlock1\<rparr>, w')))
               else (Inr \<lparr>lines = lines1, inCodeBlock = False, codeBlock = codeBlock1\<rparr>, w))
         else (Inr \<lparr>lines = lines1, inCodeBlock = inCodeBlock st, codeBlock = codeBlock1\<rparr>, w))"

text \<open>The loop over the lines the scanner gives, stopped by the first failure.\<close>

fun scan_loop ::
  "('w \<Rightarrow> string \<Rightarrow> string list \<Rightarrow> pty \<times> 'w) \<Rightarrow> string list \<Rightarrow> scan_state \<Rightarrow> 'w
     \<Rightarrow> (failure + scan_state) \<times> 'w" where
  "scan_loop start [] st w = (Inr st, w)"
| "scan_loop start (l # ls) st w =
     (case step start st w l of
        (Inl f, w') \<Rightarrow> (Inl f, w')
      | (Inr st', w') \<Rightarrow> scan_loop start ls st' w')"

definition init_state :: scan_state where
  "init_state = \<lparr>lines = [], inCodeBlock = False, codeBlock = []\<rparr>"

section \<open>The scanner and \<open>readup\<close>\<close>

text \<open>
  An opened file: the bytes its reads deliver, and the error that ends the reads when it is
  not the end of the file (a directory opens and fails at the first read).
\<close>

datatype osfile = File string "error option"

text \<open>
  \<open>bufio.Scanner\<close> with its default split function \<open>bufio.ScanLines\<close>: a token is a
  line without its newline and without one carriage return before it; the last line is a
  token also without a newline when it is not empty; a line of \<open>bufio.MaxScanTokenSize\<close>
  bytes or more stops the scanner with \<open>bufio.ErrTooLong\<close>. The first argument holds the
  bytes of the line being read. The result is the tokens and the value of
  \<open>scanner.Err()\<close>.
\<close>

definition MaxScanTokenSize :: nat where
  "MaxScanTokenSize = 64 * 1024"

definition dropCR :: "string \<Rightarrow> string" where
  "dropCR data = (if data \<noteq> [] \<and> last data = CR then butlast data else data)"

fun scanner :: "string \<Rightarrow> string \<Rightarrow> string list \<times> error option" where
  "scanner pending [] =
     (if MaxScanTokenSize \<le> length pending then ([], Some ErrTooLong)
      else if pending = [] then ([], None)
      else ([dropCR pending], None))"
| "scanner pending (c # cs) =
     (if MaxScanTokenSize \<le> length pending then ([], Some ErrTooLong)
      else if c = NL then (case scanner [] cs of (ts, e) \<Rightarrow> (dropCR pending # ts, e))
      else scanner (pending @ [c]) cs)"

text \<open>
  On a read error the scanner still gives the lines of the bytes read so far, the last one
  included, and keeps the error for \<open>scanner.Err()\<close>.
\<close>

fun scanner_lines :: "osfile \<Rightarrow> string list \<times> error option" where
  "scanner_lines (File bytes read_error) =
     (case scanner [] bytes of
        (ts, Some e) \<Rightarrow> (ts, Some e)
      | (ts, None) \<Rightarrow> (ts, read_error))"

text \<open>
  The world outside the program: for every path the answer of \<open>os.Open\<close> (an error, or the
  file), the arguments of the process, the bytes waiting on the standard input, the answer
  of the next \<open>ioutil.TempFile\<close> (an error, or the name of the new file), and the errors
  that make \<open>cp\<close> and \<open>os.Remove\<close> fail.
\<close>

record world =
  files :: "string \<Rightarrow> error + osfile"
  args :: "string list"
  stdin :: string
  temp_file :: "error + string"
  cp_error :: "error option"
  remove_error :: "error option"

text \<open>
  \<open>readup\<close> (lines 98 to 153): \<open>scan\<close> is the part after the file is opened (lines 105 to
  152), on the lines that \<open>scanner.Scan()\<close> gives, and \<open>readup\<close> opens the file before it.
  The bytes of the file are those it holds when it is opened. The loop ends when
  \<open>scanner.Scan()\<close> gives no more line; the source never reads \<open>scanner.Err()\<close>, so the
  second component of \<^const>\<open>scanner_lines\<close> is dropped.
\<close>

definition scan ::
  "('w \<Rightarrow> string \<Rightarrow> string list \<Rightarrow> pty \<times> 'w) \<Rightarrow> 'w \<Rightarrow> string list \<Rightarrow> (failure + string) \<times> 'w" where
  "scan start w ls =
     (case scan_loop start ls init_state w of
        (Inl f, w') \<Rightarrow> (Inl f, w')
      | (Inr st, w') \<Rightarrow> (Inr (Join (lines st) [NL]), w'))"

definition readup ::
  "(world \<Rightarrow> string \<Rightarrow> string list \<Rightarrow> pty \<times> world) \<Rightarrow> world \<Rightarrow> string
     \<Rightarrow> (failure + string) \<times> world" where
  "readup start w filename =
     (case files w filename of
        Inl err \<Rightarrow> (Inl (Error err), w)
      | Inr file \<Rightarrow> scan start w (fst (scanner_lines file)))"

section \<open>The workflow of \<open>main\<close>\<close>

text \<open>
  \<open>writeTempFile\<close> (lines 168 to 179): the new file holds the content. The source does not
  look at the result of \<open>fmt.Fprintf\<close>, and the model takes the write to succeed. The first
  parameter is not used, as in the source.
\<close>

definition writeTempFile :: "world \<Rightarrow> string \<Rightarrow> string \<Rightarrow> (error + string) \<times> world" where
  "writeTempFile w filename content =
     (case temp_file w of
        Inl err \<Rightarrow> (Inl err, w)
      | Inr name \<Rightarrow> (Inr name, w\<lparr>files := (files w)(name := Inr (File content None))\<rparr>))"

text \<open>
  \<open>reader.ReadString(delim)\<close>: the bytes up to the first delimiter, the delimiter included,
  or all the bytes when there is none (the error is dropped by the source).
\<close>

definition ReadString :: "string \<Rightarrow> char \<Rightarrow> string" where
  "ReadString input delim =
     (case dropWhile (\<lambda>c. c \<noteq> delim) input of
        [] \<Rightarrow> input
      | d # rest \<Rightarrow> takeWhile (\<lambda>c. c \<noteq> delim) input @ [d])"

text \<open>
  \<open>strings.TrimSpace\<close> removes the leading and the trailing runes that \<open>unicode.IsSpace\<close>
  accepts. On bytes these are the six ASCII spaces and the UTF-8 encodings of U+0085,
  U+00A0, U+1680, U+2000 to U+200A, U+2028, U+2029, U+202F, U+205F and U+3000. One rune is
  removed per unit of fuel, and the length of the string is fuel enough.
\<close>

definition space_runes :: "string list" where
  "space_runes =
     [[CHR 0x09], [CHR 0x0A], [CHR 0x0B], [CHR 0x0C], [CHR 0x0D], [CHR 0x20],
      [CHR 0xC2, CHR 0x85], [CHR 0xC2, CHR 0xA0], [CHR 0xE1, CHR 0x9A, CHR 0x80],
      [CHR 0xE2, CHR 0x80, CHR 0x80], [CHR 0xE2, CHR 0x80, CHR 0x81],
      [CHR 0xE2, CHR 0x80, CHR 0x82], [CHR 0xE2, CHR 0x80, CHR 0x83],
      [CHR 0xE2, CHR 0x80, CHR 0x84], [CHR 0xE2, CHR 0x80, CHR 0x85],
      [CHR 0xE2, CHR 0x80, CHR 0x86], [CHR 0xE2, CHR 0x80, CHR 0x87],
      [CHR 0xE2, CHR 0x80, CHR 0x88], [CHR 0xE2, CHR 0x80, CHR 0x89],
      [CHR 0xE2, CHR 0x80, CHR 0x8A], [CHR 0xE2, CHR 0x80, CHR 0xA8],
      [CHR 0xE2, CHR 0x80, CHR 0xA9], [CHR 0xE2, CHR 0x80, CHR 0xAF],
      [CHR 0xE2, CHR 0x81, CHR 0x9F], [CHR 0xE3, CHR 0x80, CHR 0x80]]"

fun trim_left :: "nat \<Rightarrow> string \<Rightarrow> string" where
  "trim_left 0 s = s"
| "trim_left (Suc n) s =
     (case filter (HasPrefix s) space_runes of
        [] \<Rightarrow> s
      | p # ps \<Rightarrow> trim_left n (drop (length p) s))"

fun trim_right :: "nat \<Rightarrow> string \<Rightarrow> string" where
  "trim_right 0 s = s"
| "trim_right (Suc n) s =
     (case filter (\<lambda>p. HasPrefix (rev s) (rev p)) space_runes of
        [] \<Rightarrow> s
      | p # ps \<Rightarrow> trim_right n (take (length s - length p) s))"

definition TrimSpace :: "string \<Rightarrow> string" where
  "TrimSpace s = trim_right (length s) (trim_left (length s) s)"

text \<open>
  \<open>strings.ToLower\<close> on the ASCII letters. On other runes Go maps by rune; no rune other
  than \<open>Y\<close> and \<open>y\<close> has the lower case \<open>y\<close>, so the comparison with \<open>y\<close> in \<open>main\<close> is
  the same.
\<close>

definition ToLower :: "string \<Rightarrow> string" where
  "ToLower s = map (\<lambda>c. if 65 \<le> (of_char c :: nat) \<and> (of_char c :: nat) \<le> 90
                          then char_of ((of_char c :: nat) + 32) else c) s"

text \<open>
  \<open>exec.Command("cp", tmpName, filename).Run()\<close> and \<open>os.Remove(tmpName)\<close>: each fails
  with the error the world holds for it, and \<open>cp\<close> also when its source does not open;
  otherwise the destination holds the source's file, and the removed path does not open.
\<close>

definition run_cp :: "world \<Rightarrow> string \<Rightarrow> string \<Rightarrow> error option \<times> world" where
  "run_cp w src dst =
     (case cp_error w of
        Some err \<Rightarrow> (Some err, w)
      | None \<Rightarrow>
          (case files w src of
             Inl err \<Rightarrow> (Some err, w)
           | Inr f \<Rightarrow> (None, w\<lparr>files := (files w)(dst := Inr f)\<rparr>)))"

definition os_Remove :: "world \<Rightarrow> string \<Rightarrow> error option \<times> world" where
  "os_Remove w name =
     (case remove_error w of
        Some err \<Rightarrow> (Some err, w)
      | None \<Rightarrow> (None, w\<lparr>files := (files w)(name := Inl (Err ''no such file or directory''))\<rparr>))"

text \<open>
  How the process ends on a failure of one of its calls: an error is printed and the exit
  status is 1; a panic and a call that never returns stay what they are.
\<close>

definition fail_exit :: "failure \<Rightarrow> world \<Rightarrow> (failure + int) \<times> world" where
  "fail_exit f w = (case f of Error err \<Rightarrow> (Inr 1, w) | Panic \<Rightarrow> (Inl Panic, w) | Hang \<Rightarrow> (Inl Hang, w))"

text \<open>
  \<open>main\<close> (lines 181 to 234): the exit status and the world the process leaves. What is
  printed is not part of the model.
\<close>

definition main ::
  "(world \<Rightarrow> string \<Rightarrow> string list \<Rightarrow> pty \<times> world) \<Rightarrow> world \<Rightarrow> (failure + int) \<times> world" where
  "main start w =
     (let filename = (if length (args w) \<noteq> 2 then ''./README.md'' else args w ! 1)
      in case readup start w filename of
           (Inl f, w1) \<Rightarrow> fail_exit f w1
         | (Inr content, w1) \<Rightarrow>
             (case writeTempFile w1 filename content of
                (Inl err, w2) \<Rightarrow> (Inr 1, w2)
              | (Inr tmpName, w2) \<Rightarrow>
                  (case execCommand start w2 [''diff'', ''-u'', filename, tmpName] of
                     (Inl f, w3) \<Rightarrow> fail_exit f w3
                   | (Inr diffOut, w3) \<Rightarrow>
                       (let text = ReadString (stdin w3) NL
                        in if ToLower (TrimSpace text) \<noteq> ''y'' then (Inr 0, w3)
                           else (case run_cp w3 tmpName filename of
                                   (Some err, w4) \<Rightarrow> (Inr 1, w4)
                                 | (None, w4) \<Rightarrow>
                                     (case os_Remove w4 tmpName of
                                        (Some err, w5) \<Rightarrow> (Inr 1, w5)
                                      | (None, w5) \<Rightarrow> (Inr 0, w5)))))))"

section \<open>Blocks as the specification describes them\<close>

text \<open>
  The specification's data model: a block is a run of lines bounded by two fence lines, the
  lines between them are its inner lines, and it is eligible when its first inner line
  begins with the directive prefix. \<open>blocks cur ls\<close> gives the closed blocks of \<open>ls\<close>, each
  with its two fences; \<open>cur\<close> is the block that is open, if one is. A block that is never
  closed is not in the list.
\<close>

fun blocks :: "string list option \<Rightarrow> string list \<Rightarrow> string list list" where
  "blocks cur [] = []"
| "blocks None (l # ls) =
     (if HasPrefix l fence then blocks (Some [l]) ls else blocks None ls)"
| "blocks (Some b) (l # ls) =
     (if HasPrefix l fence then (b @ [l]) # blocks None ls else blocks (Some (b @ [l])) ls)"

definition inner_lines :: "string list \<Rightarrow> string list" where
  "inner_lines b = butlast (tl b)"

definition eligible :: "string list \<Rightarrow> bool" where
  "eligible b = (inner_lines b \<noteq> [] \<and> HasPrefix (hd (inner_lines b)) ''> '')"

text \<open>
  The byte comparison of the round trip: a document without its final newline, when it has
  one. And the lines of a document whose elements are joined by newlines, when an element,
  as the output of a command does, holds newlines itself.
\<close>

definition without_final_newline :: "string \<Rightarrow> string" where
  "without_final_newline s = (if s \<noteq> [] \<and> last s = NL then butlast s else s)"

definition split_lines :: "string list \<Rightarrow> string list" where
  "split_lines xs = concat (map (\<lambda>x. Split x NL) xs)"

section \<open>Example inputs\<close>

text \<open>
  A terminal that gives the bytes \<open>out\<close> in one read and then the end of the data, and a
  world in which every program starts, \<open>echo\<close> prints its arguments, as a terminal does,
  with a carriage return and a newline, and every other program prints nothing.
\<close>

definition output_pty :: "string \<Rightarrow> pty" where
  "output_pty out = \<lparr>start_error = None, reads = [(out, None), ([], Some EOF)], exit_status = 0\<rparr>"

definition echo_start :: "'w \<Rightarrow> string \<Rightarrow> string list \<Rightarrow> pty \<times> 'w" where
  "echo_start w prog arguments =
     (if prog = ''echo'' then (output_pty (Join arguments '' '' @ [CR, NL]), w)
      else (output_pty [], w))"

text \<open>
  The command runner of that world as a function of the command alone.
\<close>

definition echo_run :: "string list \<Rightarrow> failure + string" where
  "echo_run cmd = fst (execCommand echo_start () cmd)"



text \<open>
  A world whose only file is \<open>README.md\<close>, with the given file behind it, where the user
  answers with the given bytes.
\<close>

definition readme_world :: "osfile \<Rightarrow> string \<Rightarrow> world" where
  "readme_world f answer =
     \<lparr>files = (\<lambda>p. if p = ''README.md'' then Inr f else Inl (Err ''no such file or directory'')),
      args = [''readup'', ''README.md''],
      stdin = answer,
      temp_file = Inr ''/tmp/readup0'',
      cp_error = None,
      remove_error = None\<rparr>"

section \<open>The invariant of the scan\<close>

text \<open>
  Inside a block the accumulated block is not empty and is no longer than the lines read:
  it holds the lines read since the opening fence.
\<close>

definition block_inv :: "scan_state \<Rightarrow> bool" where
  "block_inv st = (if inCodeBlock st then codeBlock st \<noteq> [] \<and> length (codeBlock st) \<le> length (lines st) else True)"

section \<open>The invariant of a second scan\<close>

text \<open>
  For the scan of a document that a first scan wrote. A line is storable when the scanner
  gives it back after it is written: each of its lines is shorter than the scanner's limit
  and does not end in a carriage return. The output of the directive \<open>l\<close> is in order for
  the command runner \<open>R\<close> when it has no fence line and no line as long as the scanner's
  limit.
\<close>

definition storable :: "string \<Rightarrow> bool" where
  "storable x = (\<forall>p\<in>set (Split x NL). length p < MaxScanTokenSize \<and> dropCR p = p)"

definition output_ok :: "(string list \<Rightarrow> failure + string) \<Rightarrow> string \<Rightarrow> bool" where
  "output_ok R l =
     (\<forall>out. R (codeBlockCommand l) = Inr out \<longrightarrow>
        (\<forall>p\<in>set (Split out NL). \<not> HasPrefix p fence \<and> length p < MaxScanTokenSize))"

text \<open>
  \<open>rescans start w L\<close>: the scan of the lines of \<open>L\<close> gives \<open>L\<close> again and ends outside a
  block. \<open>rescan_inv start w st\<close>: the lines of the state \<open>st\<close> of a first scan, up to the
  block that is open, are such lines, and the lines of the open block hold no newline.
  \<open>open_block cur st\<close>: the state \<open>st\<close> is inside the block \<open>cur\<close>, or outside a block.
\<close>

definition rescans ::
  "('w \<Rightarrow> string \<Rightarrow> string list \<Rightarrow> pty \<times> 'w) \<Rightarrow> 'w \<Rightarrow> string list \<Rightarrow> bool" where
  "rescans start w L =
     (\<exists>st. scan_loop start (split_lines L) init_state w = (Inr st, w) \<and> lines st = L
        \<and> \<not> inCodeBlock st)"

definition rescan_inv ::
  "('w \<Rightarrow> string \<Rightarrow> string list \<Rightarrow> pty \<times> 'w) \<Rightarrow> 'w \<Rightarrow> scan_state \<Rightarrow> bool" where
  "rescan_inv start w st =
     (if inCodeBlock st
      then (\<exists>L F body. lines st = L @ F # body \<and> codeBlock st = F # body \<and> HasPrefix F fence
              \<and> (\<forall>l\<in>set body. \<not> HasPrefix l fence) \<and> (\<forall>l\<in>set (F # body). NL \<notin> set l)
              \<and> rescans start w L)
      else rescans start w (lines st))"

definition open_block :: "string list option \<Rightarrow> scan_state \<Rightarrow> bool" where
  "open_block cur st =
     (case cur of None \<Rightarrow> \<not> inCodeBlock st | Some b \<Rightarrow> inCodeBlock st \<and> codeBlock st = b)"

section \<open>Properties of the scan\<close>

lemma scan_loop_append:
  "scan_loop start (xs @ ys) st w =
     (case scan_loop start xs st w of
        (Inl f, w') \<Rightarrow> (Inl f, w')
      | (Inr st', w') \<Rightarrow> scan_loop start ys st' w')"
  by (induction xs arbitrary: st w) (auto split: prod.splits sum.splits)

lemma Split_not_Nil: "Split s sep \<noteq> []"
  by (cases s) (auto split: list.splits)

lemma read_loop_no_panic: "read_loop rs out \<noteq> Inl Panic"
  by (induction rs out rule: read_loop.induct) auto

lemma execCommand_no_panic: "cmd \<noteq> [] \<Longrightarrow> fst (execCommand start w cmd) \<noteq> Inl Panic"
  using read_loop_no_panic
  by (auto simp: execCommand_def Let_def split: prod.splits option.splits sum.splits)

lemma fence_not_directive: "HasPrefix l fence \<Longrightarrow> \<not> HasPrefix l ''> ''"
  by (cases l) (auto simp: HasPrefix_def fence_def)

lemma step_inv:
  assumes "block_inv st"
  shows "fst (step start st w l) \<noteq> Inl Panic \<and> (\<forall>st'. fst (step start st w l) = Inr st' \<longrightarrow> block_inv st')"
proof (cases "inCodeBlock st")
  case False
  then show ?thesis
    by (auto simp: step_def Let_def block_inv_def)
next
  case True
  with assms have cb: "codeBlock st \<noteq> []" "length (codeBlock st) \<le> length (lines st)"
    by (auto simp: block_inv_def)
  have np: "fst (execCommand start w (codeBlockCommand c)) \<noteq> Inl Panic" for c
    by (rule execCommand_no_panic) (simp add: codeBlockCommand_def Split_not_Nil)
  show ?thesis
  proof (cases "HasPrefix l fence")
    case False
    with True cb show ?thesis
      by (auto simp: step_def Let_def block_inv_def)
  next
    case f: True
    have len: "\<not> length (codeBlock st @ [l]) < 2"
      using cb by (cases "codeBlock st") auto
    show ?thesis
      using True f cb len np[of "(codeBlock st @ [l]) ! 1"]
      by (auto simp: step_def Let_def block_inv_def split: prod.splits sum.splits)
  qed
qed

lemma scan_loop_inv:
  "block_inv st \<Longrightarrow> fst (scan_loop start ls st w) \<noteq> Inl Panic \<and> (\<forall>st'. fst (scan_loop start ls st w) = Inr st' \<longrightarrow> block_inv st')"
proof (induction ls arbitrary: st w)
  case Nil
  then show ?case by simp
next
  case (Cons l ls)
  obtain r w' where s: "step start st w l = (r, w')" by (cases "step start st w l")
  from step_inv[OF Cons.prems, of start w l] s
  have r: "r \<noteq> Inl Panic" "\<And>st'. r = Inr st' \<Longrightarrow> block_inv st'" by auto
  show ?case
  proof (cases r)
    case (Inl f)
    with r s show ?thesis by simp
  next
    case (Inr st')
    with r have "block_inv st'" by simp
    from Cons.IH[OF this, of w'] s Inr show ?thesis by simp
  qed
qed

lemma scan_loop_plain:
  "\<forall>l\<in>set ls. \<not> HasPrefix l fence \<Longrightarrow>
   scan_loop start ls st w =
     (Inr \<lparr>lines = lines st @ ls, inCodeBlock = inCodeBlock st,
           codeBlock = (if inCodeBlock st then codeBlock st @ ls else codeBlock st)\<rparr>, w)"
  by (induction ls arbitrary: st) (auto simp: step_def Let_def)

lemma step_open:
  "\<not> inCodeBlock st \<Longrightarrow> HasPrefix l fence \<Longrightarrow>
   step start st w l = (Inr \<lparr>lines = lines st @ [l], inCodeBlock = True, codeBlock = [l]\<rparr>, w)"
  by (simp add: step_def Let_def)

lemma scan_open_block:
  assumes "\<not> inCodeBlock st" "HasPrefix F fence" "\<forall>l\<in>set body. \<not> HasPrefix l fence"
  shows "scan_loop start (F # body) st w =
     (Inr \<lparr>lines = lines st @ F # body, inCodeBlock = True, codeBlock = F # body\<rparr>, w)"
  using assms by (simp add: step_open scan_loop_plain)

lemma step_close:
  assumes "HasPrefix C fence"
  shows "step start \<lparr>lines = L @ F # body, inCodeBlock = True, codeBlock = F # body\<rparr> w C =
     (if HasPrefix ((F # body @ [C]) ! 1) ''> ''
      then (case execCommand start w (codeBlockCommand ((F # body @ [C]) ! 1)) of
              (Inl f, w') \<Rightarrow> (Inl f, w')
            | (Inr out, w') \<Rightarrow>
                (Inr \<lparr>lines = L @ [F, (F # body @ [C]) ! 1, out, fence], inCodeBlock = False,
                      codeBlock = F # body @ [C]\<rparr>, w'))
      else (Inr \<lparr>lines = L @ F # body @ [C], inCodeBlock = False, codeBlock = F # body @ [C]\<rparr>, w))"
proof -
  have tk: "take (Suc (Suc (length L))) (L @ F # body @ [C]) = L @ [F, (body @ [C]) ! 0]"
    by (cases body) auto
  show ?thesis
    using assms tk
    by (auto simp: step_def Let_def nat_add_distrib split: prod.splits sum.splits)
qed

section \<open>Properties of \<open>execCommand\<close> and of the commands\<close>





lemma execCommand_frame:
  assumes "\<And>v prog a. g (snd (start v prog a)) = g v"
  shows "g (snd (execCommand start w cmd)) = g w"
proof -
  have "g (snd (start w prog a)) = g w" for prog a by (rule assms)
  then show ?thesis
    by (auto simp: execCommand_def Let_def split: prod.splits option.splits sum.splits)
       (metis snd_conv)+
qed

lemma step_frame:
  assumes "\<And>v prog a. g (snd (start v prog a)) = g v"
  shows "g (snd (step start st w l)) = g w"
proof -
  have "g (snd (execCommand start w cmd)) = g w" for cmd
    using assms by (rule execCommand_frame)
  then show ?thesis
    by (auto simp: step_def Let_def split: prod.splits sum.splits) (metis snd_conv)+
qed

lemma scan_loop_frame:
  assumes "\<And>v prog a. g (snd (start v prog a)) = g v"
  shows "g (snd (scan_loop start ls st w)) = g w"
proof (induction ls arbitrary: st w)
  case Nil
  show ?case by simp
next
  case (Cons l ls)
  have s: "g (snd (step start st w l)) = g w" using assms by (rule step_frame)
  show ?case
  proof (cases "step start st w l")
    case (Pair r w')
    with s have "g w' = g w" by simp
    with Pair Cons.IH show ?thesis by (cases r) auto
  qed
qed

lemma readup_frame:
  assumes "\<And>v prog a. g (snd (start v prog a)) = g v"
  shows "g (snd (readup start w filename)) = g w"
proof -
  have "g (snd (scan_loop start ls init_state w)) = g w" for ls
    using assms by (rule scan_loop_frame)
  then show ?thesis
    by (auto simp: readup_def scan_def split: prod.splits sum.splits) (metis snd_conv)+
qed

section \<open>Lines and bytes\<close>

lemma Split_no_sep: "sep \<notin> set p \<Longrightarrow> Split p sep = [p]"
  by (induction p) auto

lemma Split_append_sep: "sep \<notin> set p \<Longrightarrow> Split (p @ sep # cs) sep = p # Split cs sep"
  by (induction p) auto

lemma Split_append_hd:
  "sep \<notin> set p \<Longrightarrow> Split (p @ xs) sep = (p @ hd (Split xs sep)) # tl (Split xs sep)"
  by (induction p) (auto simp: Split_not_Nil split: list.splits)

lemma Join_Split: "Join (Split s sep) [sep] = s"
proof (induction s)
  case Nil
  show ?case by simp
next
  case (Cons c s)
  obtain t ts where ts: "Split s sep = t # ts" using Split_not_Nil[of s sep] by (cases "Split s sep") auto
  with Cons show ?case by (cases ts) auto
qed

lemma Split_piece_no_sep: "p \<in> set (Split s sep) \<Longrightarrow> sep \<notin> set p"
proof (induction s arbitrary: p)
  case Nil
  then show ?case by simp
next
  case (Cons c s)
  obtain t ts where ts: "Split s sep = t # ts" using Split_not_Nil[of s sep] by (cases "Split s sep") auto
  with Cons show ?case by (auto split: if_splits)
qed

lemma wfn_line: "NL \<notin> set p \<Longrightarrow> without_final_newline p = p"
  by (cases p rule: rev_cases) (auto simp: without_final_newline_def)

lemma wfn_append: "cs \<noteq> [] \<Longrightarrow> without_final_newline (p @ c # cs) = p @ c # without_final_newline cs"
  by (auto simp: without_final_newline_def butlast_append)

lemma Join_Cons: "Join (x # xs) sep = (if xs = [] then x else x @ sep @ Join xs sep)"
  by (cases xs) auto

lemma scanner_plain:
  assumes "NL \<notin> set pending"
    and "\<forall>l\<in>set (Split (pending @ bytes) NL). length l < MaxScanTokenSize \<and> dropCR l = l"
  shows "snd (scanner pending bytes) = None
         \<and> Join (fst (scanner pending bytes)) [NL] = without_final_newline (pending @ bytes)
         \<and> (fst (scanner pending bytes) = [] \<longleftrightarrow> pending @ bytes = [])"
  using assms
proof (induction bytes arbitrary: pending)
  case Nil
  then have "length pending < MaxScanTokenSize" "dropCR pending = pending"
    by (simp_all add: Split_no_sep)
  with Nil(1) show ?case by (simp add: wfn_line)
next
  case (Cons c cs)
  have hd: "length (pending @ hd (Split (c # cs) NL)) < MaxScanTokenSize"
    using Cons.prems by (simp add: Split_append_hd)
  then have short: "\<not> MaxScanTokenSize \<le> length pending" by simp
  show ?case
  proof (cases "c = NL")
    case True
    from Cons.prems True have p: "dropCR pending = pending"
      and rest: "\<forall>l\<in>set (Split ([] @ cs) NL). length l < MaxScanTokenSize \<and> dropCR l = l"
      by (simp_all add: Split_append_sep)
    have ih: "snd (scanner [] cs) = None
         \<and> Join (fst (scanner [] cs)) [NL] = without_final_newline ([] @ cs)
         \<and> (fst (scanner [] cs) = [] \<longleftrightarrow> [] @ cs = [])"
      by (rule Cons.IH) (use rest in simp_all)
    obtain ts e where s: "scanner [] cs = (ts, e)" by (cases "scanner [] cs")
    with ih have e: "e = None" and j: "Join ts [NL] = without_final_newline cs" and n: "ts = [] \<longleftrightarrow> cs = []"
      by simp_all
    show ?thesis
    proof (cases "cs = []")
      case True
      with n have "ts = []" by simp
      with True \<open>c = NL\<close> short s e p Cons.prems(1) show ?thesis
        by (simp add: without_final_newline_def)
    next
      case False
      with n have "ts \<noteq> []" by simp
      with False \<open>c = NL\<close> short s e p j show ?thesis
        by (simp add: Join_Cons wfn_append)
    qed
  next
    case False
    have "snd (scanner (pending @ [c]) cs) = None
         \<and> Join (fst (scanner (pending @ [c]) cs)) [NL] = without_final_newline ((pending @ [c]) @ cs)
         \<and> (fst (scanner (pending @ [c]) cs) = [] \<longleftrightarrow> (pending @ [c]) @ cs = [])"
      by (rule Cons.IH) (use Cons.prems False in simp_all)
    with False short show ?thesis by simp
  qed
qed

section \<open>Documents without an eligible block\<close>

lemma scan_loop_no_eligible:
  assumes "\<forall>b\<in>set (blocks cur ls). \<not> eligible b"
    and "case cur of None \<Rightarrow> \<not> inCodeBlock st
         | Some b \<Rightarrow> inCodeBlock st \<and> codeBlock st = b \<and> b \<noteq> [] \<and> length b \<le> length (lines st)"
  shows "\<exists>st'. scan_loop start ls st w = (Inr st', w) \<and> lines st' = lines st @ ls"
  using assms
proof (induction ls arbitrary: cur st)
  case Nil
  then show ?case by simp
next
  case (Cons l ls)
  show ?case
  proof (cases cur)
    case None
    with Cons.prems(2) have out: "\<not> inCodeBlock st" by simp
    show ?thesis
    proof (cases "HasPrefix l fence")
      case True
      let ?st = "\<lparr>lines = lines st @ [l], inCodeBlock = True, codeBlock = [l]\<rparr>"
      have s: "step start st w l = (Inr ?st, w)" using out True by (rule step_open)
      have "\<exists>st'. scan_loop start ls ?st w = (Inr st', w) \<and> lines st' = lines ?st @ ls"
        by (rule Cons.IH[where cur = "Some [l]"]) (use Cons.prems(1) None True in simp_all)
      with s show ?thesis by simp
    next
      case False
      let ?st = "\<lparr>lines = lines st @ [l], inCodeBlock = False, codeBlock = codeBlock st\<rparr>"
      have s: "step start st w l = (Inr ?st, w)" using out False by (simp add: step_def Let_def)
      have "\<exists>st'. scan_loop start ls ?st w = (Inr st', w) \<and> lines st' = lines ?st @ ls"
        by (rule Cons.IH[where cur = None]) (use Cons.prems(1) None False in simp_all)
      with s show ?thesis by simp
    qed
  next
    case (Some b)
    with Cons.prems(2) have inb: "inCodeBlock st" "codeBlock st = b" "b \<noteq> []"
      "length b \<le> length (lines st)" by simp_all
    show ?thesis
    proof (cases "HasPrefix l fence")
      case True
      from Cons.prems(1) Some True have ne: "\<not> eligible (b @ [l])" by simp
      have nd: "\<not> HasPrefix ((b @ [l]) ! 1) ''> ''"
      proof (cases "tl b")
        case Nil
        with inb(3) have "(b @ [l]) ! 1 = l" by (cases b) auto
        with True show ?thesis by (simp add: fence_not_directive)
      next
        case (Cons x xs)
        with inb(3) have "(b @ [l]) ! 1 = x" "inner_lines (b @ [l]) = x # xs"
          by (cases b; simp add: inner_lines_def)+
        with ne show ?thesis by (simp add: eligible_def)
      qed
      let ?st = "\<lparr>lines = lines st @ [l], inCodeBlock = False, codeBlock = b @ [l]\<rparr>"
      have len: "\<not> length (b @ [l]) < 2" using inb(3) by (cases b) auto
      have s: "step start st w l = (Inr ?st, w)"
        using inb True nd len by (simp add: step_def Let_def)
      have "\<exists>st'. scan_loop start ls ?st w = (Inr st', w) \<and> lines st' = lines ?st @ ls"
        by (rule Cons.IH[where cur = None]) (use Cons.prems(1) Some True in simp_all)
      with s show ?thesis by simp
    next
      case False
      let ?st = "\<lparr>lines = lines st @ [l], inCodeBlock = True, codeBlock = b @ [l]\<rparr>"
      have s: "step start st w l = (Inr ?st, w)"
        using inb False by (simp add: step_def Let_def)
      have "\<exists>st'. scan_loop start ls ?st w = (Inr st', w) \<and> lines st' = lines ?st @ ls"
        by (rule Cons.IH[where cur = "Some (b @ [l])"]) (use Cons.prems(1) Some False inb in simp_all)
      with s show ?thesis by simp
    qed
  qed
qed

section \<open>The scan of a document that a scan wrote\<close>

lemma split_lines_append: "split_lines (xs @ ys) = split_lines xs @ split_lines ys"
  by (simp add: split_lines_def)

lemma split_lines_plain: "\<forall>l\<in>set xs. NL \<notin> set l \<Longrightarrow> split_lines xs = xs"
  by (induction xs) (auto simp: split_lines_def Split_no_sep)

lemma state_eq:
  "lines st = a \<Longrightarrow> inCodeBlock st = b \<Longrightarrow> codeBlock st = c \<Longrightarrow>
   st = \<lparr>lines = a, inCodeBlock = b, codeBlock = c\<rparr>"
  by (cases st) simp

lemma scan_closed_block:
  assumes "\<not> inCodeBlock st" and "HasPrefix F fence" and "\<forall>l\<in>set body. \<not> HasPrefix l fence"
  shows "scan_loop start (F # body @ [C]) st w =
     step start \<lparr>lines = lines st @ F # body, inCodeBlock = True, codeBlock = F # body\<rparr> w C"
proof -
  let ?s = "\<lparr>lines = lines st @ F # body, inCodeBlock = True, codeBlock = F # body\<rparr>"
  have "scan_loop start ((F # body) @ [C]) st w =
     (case scan_loop start (F # body) st w of
        (Inl f, w') \<Rightarrow> (Inl f, w')
      | (Inr st', w') \<Rightarrow> scan_loop start [C] st' w')"
    by (rule scan_loop_append)
  also have "\<dots> = scan_loop start [C] ?s w"
    by (simp only: scan_open_block[OF assms] prod.case sum.case)
  also have "\<dots> = step start ?s w C"
    by (cases "step start ?s w C") (simp split: sum.splits)
  finally show ?thesis by simp
qed

lemma rescans_extend:
  assumes "rescans start w L"
    and "split_lines (L @ M) = split_lines L @ B"
    and "\<And>st. lines st = L \<Longrightarrow> \<not> inCodeBlock st \<Longrightarrow>
           \<exists>st'. scan_loop start B st w = (Inr st', w) \<and> lines st' = L @ M \<and> \<not> inCodeBlock st'"
  shows "rescans start w (L @ M)"
proof -
  from assms(1) obtain st where st: "scan_loop start (split_lines L) init_state w = (Inr st, w)"
    "lines st = L" "\<not> inCodeBlock st" by (auto simp: rescans_def)
  from assms(3)[OF st(2,3)] obtain st' where
    st': "scan_loop start B st w = (Inr st', w)" "lines st' = L @ M" "\<not> inCodeBlock st'" by blast
  have "scan_loop start (split_lines L @ B) init_state w = (Inr st', w)"
    by (simp add: scan_loop_append st(1) st'(1))
  with st'(2,3) show ?thesis unfolding rescans_def assms(2) by blast
qed

lemma rescans_snoc_plain:
  assumes "rescans start w L" and "NL \<notin> set l" and "\<not> HasPrefix l fence"
  shows "rescans start w (L @ [l])"
  using assms(1)
proof (rule rescans_extend)
  show "split_lines (L @ [l]) = split_lines L @ [l]"
    using assms(2) by (simp add: split_lines_def Split_no_sep)
next
  fix st :: scan_state
  assume "lines st = L" "\<not> inCodeBlock st"
  then have "scan_loop start [l] st w =
     (Inr \<lparr>lines = L @ [l], inCodeBlock = False, codeBlock = codeBlock st\<rparr>, w)"
    using assms(3) by (simp add: step_def Let_def)
  then show "\<exists>st'. scan_loop start [l] st w = (Inr st', w) \<and> lines st' = L @ [l] \<and> \<not> inCodeBlock st'"
    by simp
qed

lemma rescans_block_plain:
  assumes "rescans start w L" and "HasPrefix F fence" and "\<forall>l\<in>set body. \<not> HasPrefix l fence"
    and "HasPrefix C fence" and "\<forall>l\<in>set (F # body @ [C]). NL \<notin> set l"
    and "\<not> HasPrefix ((F # body @ [C]) ! 1) ''> ''"
  shows "rescans start w (L @ F # body @ [C])"
  using assms(1)
proof (rule rescans_extend)
  have "split_lines (F # body @ [C]) = F # body @ [C]"
    using assms(5) by (rule split_lines_plain)
  then show "split_lines (L @ F # body @ [C]) = split_lines L @ F # body @ [C]"
    by (simp add: split_lines_append)
next
  fix st :: scan_state
  assume st: "lines st = L" "\<not> inCodeBlock st"
  have "scan_loop start (F # body @ [C]) st w =
     (Inr \<lparr>lines = L @ F # body @ [C], inCodeBlock = False, codeBlock = F # body @ [C]\<rparr>, w)"
    unfolding scan_closed_block[OF st(2) assms(2,3)] st(1)
    using step_close[OF assms(4), of start L F body w] assms(6) by simp
  then show "\<exists>st'. scan_loop start (F # body @ [C]) st w = (Inr st', w)
          \<and> lines st' = L @ F # body @ [C] \<and> \<not> inCodeBlock st'"
    by simp
qed

lemma rescans_block_spliced:
  assumes ex: "\<And>v cmd. execCommand start v cmd = (R cmd, v)"
    and "rescans start w L" and "HasPrefix F fence" and "NL \<notin> set F"
    and "HasPrefix D ''> ''" and "NL \<notin> set D" and "output_ok R D"
    and "R (codeBlockCommand D) = Inr out"
  shows "rescans start w (L @ [F, D, out, fence])"
  using assms(2)
proof (rule rescans_extend)
  show "split_lines (L @ [F, D, out, fence]) = split_lines L @ F # (D # Split out NL) @ [fence]"
    using assms(4,6) by (simp add: split_lines_def Split_no_sep fence_def)
next
  fix st :: scan_state
  assume st: "lines st = L" "\<not> inCodeBlock st"
  have outs: "\<forall>p\<in>set (Split out NL). \<not> HasPrefix p fence"
    using assms(7,8) unfolding output_ok_def by blast
  have nf: "\<not> HasPrefix D fence" using assms(5) fence_not_directive by blast
  have body: "\<forall>l\<in>set (D # Split out NL). \<not> HasPrefix l fence" using nf outs by simp
  have f: "HasPrefix fence fence" by (simp add: HasPrefix_def)
  have "scan_loop start (F # (D # Split out NL) @ [fence]) st w =
     (Inr \<lparr>lines = L @ [F, D, out, fence], inCodeBlock = False,
           codeBlock = F # (D # Split out NL) @ [fence]\<rparr>, w)"
    unfolding scan_closed_block[OF st(2) assms(3) body] st(1)
    using step_close[OF f, of start L F "D # Split out NL" w] assms(5,8) by (simp add: ex)
  then show "\<exists>st'. scan_loop start (F # (D # Split out NL) @ [fence]) st w = (Inr st', w)
          \<and> lines st' = L @ [F, D, out, fence] \<and> \<not> inCodeBlock st'"
    by simp
qed

lemma step_rescan_inv:
  assumes ex: "\<And>v cmd. execCommand start v cmd = (R cmd, v)"
    and nl: "NL \<notin> set l"
    and cl: "inCodeBlock st \<Longrightarrow> HasPrefix l fence \<Longrightarrow> HasPrefix ((codeBlock st @ [l]) ! 1) ''> ''
               \<Longrightarrow> output_ok R ((codeBlock st @ [l]) ! 1)"
    and inv: "rescan_inv start w2 st"
    and s: "step start st w l = (Inr st', w')"
  shows "rescan_inv start w2 st'"
proof (cases "inCodeBlock st")
  case False
  with inv have r: "rescans start w2 (lines st)" by (simp add: rescan_inv_def)
  show ?thesis
  proof (cases "HasPrefix l fence")
    case True
    with False s have "st' = \<lparr>lines = lines st @ [l], inCodeBlock = True, codeBlock = [l]\<rparr>"
      by (simp add: step_open)
    with r True nl show ?thesis by (simp add: rescan_inv_def)
  next
    case nf: False
    with False s have st': "st' = \<lparr>lines = lines st @ [l], inCodeBlock = False, codeBlock = codeBlock st\<rparr>"
      by (simp add: step_def Let_def)
    have "rescans start w2 (lines st @ [l])"
      using r nl nf by (rule rescans_snoc_plain)
    with st' show ?thesis by (simp add: rescan_inv_def)
  qed
next
  case True
  with inv have "\<exists>L F body. lines st = L @ F # body \<and> codeBlock st = F # body \<and> HasPrefix F fence
              \<and> (\<forall>l\<in>set body. \<not> HasPrefix l fence) \<and> (\<forall>l\<in>set (F # body). NL \<notin> set l)
              \<and> rescans start w2 L"
    by (simp add: rescan_inv_def)
  then obtain L F body where b: "lines st = L @ F # body" "codeBlock st = F # body"
    "HasPrefix F fence" "\<forall>l\<in>set body. \<not> HasPrefix l fence" "\<forall>l\<in>set (F # body). NL \<notin> set l"
    "rescans start w2 L" by blast
  have steq: "st = \<lparr>lines = L @ F # body, inCodeBlock = True, codeBlock = F # body\<rparr>"
    using b(1,2) True by (intro state_eq) simp_all
  show ?thesis
  proof (cases "HasPrefix l fence")
    case nf: False
    with True s b have "st' = \<lparr>lines = L @ F # body @ [l], inCodeBlock = True, codeBlock = F # body @ [l]\<rparr>"
      by (simp add: step_def Let_def)
    with b nf nl show ?thesis by (simp add: rescan_inv_def)
  next
    case fl: True
    note sc = step_close[OF fl, of start L F body w]
    show ?thesis
    proof (cases "HasPrefix ((F # body @ [l]) ! 1) ''> ''")
      case False
      with sc s steq have st': "st' = \<lparr>lines = L @ F # body @ [l], inCodeBlock = False, codeBlock = F # body @ [l]\<rparr>"
        by simp
      have "rescans start w2 (L @ F # body @ [l])"
        using b(6,3,4) fl _ False
      proof (rule rescans_block_plain)
        show "\<forall>x\<in>set (F # body @ [l]). NL \<notin> set x"
          using b(5) nl by simp
      qed
      with st' show ?thesis by (simp add: rescan_inv_def)
    next
      case d: True
      have "body \<noteq> []"
      proof
        assume "body = []"
        with d have "HasPrefix l ''> ''" by simp
        with fl show False using fence_not_directive by blast
      qed
      then obtain D inner where body: "body = D # inner" by (cases body) auto
      with d have dD: "HasPrefix D ''> ''" by simp
      have ok: "output_ok R D"
        using cl[OF True fl] d b(2) body by simp
      from sc s steq d body obtain out where
        out: "R (codeBlockCommand D) = Inr out"
        and st': "st' = \<lparr>lines = L @ [F, D, out, fence], inCodeBlock = False, codeBlock = F # body @ [l]\<rparr>"
        by (cases "R (codeBlockCommand D)") (auto simp: ex)
      have "rescans start w2 (L @ [F, D, out, fence])"
        using ex b(6,3) _ dD _ ok out
      proof (rule rescans_block_spliced)
        show "NL \<notin> set F" using b(5) by simp
        show "NL \<notin> set D" using b(5) body by simp
      qed
      with st' show ?thesis by (simp add: rescan_inv_def)
    qed
  qed
qed

lemma rescan_inv_result:
  assumes "rescan_inv start w2 st"
  shows "\<exists>st2. scan_loop start (split_lines (lines st)) init_state w2 = (Inr st2, w2) \<and> lines st2 = lines st"
proof (cases "inCodeBlock st")
  case False
  with assms show ?thesis by (auto simp: rescan_inv_def rescans_def)
next
  case True
  with assms have "\<exists>L F body. lines st = L @ F # body \<and> codeBlock st = F # body \<and> HasPrefix F fence
              \<and> (\<forall>l\<in>set body. \<not> HasPrefix l fence) \<and> (\<forall>l\<in>set (F # body). NL \<notin> set l)
              \<and> rescans start w2 L"
    by (simp add: rescan_inv_def)
  then obtain L F body where b: "lines st = L @ F # body" "codeBlock st = F # body"
    "HasPrefix F fence" "\<forall>l\<in>set body. \<not> HasPrefix l fence" "\<forall>l\<in>set (F # body). NL \<notin> set l"
    "rescans start w2 L" by blast
  from b(6) obtain s0 where s0: "scan_loop start (split_lines L) init_state w2 = (Inr s0, w2)"
    "lines s0 = L" "\<not> inCodeBlock s0" by (auto simp: rescans_def)
  have "split_lines (F # body) = F # body"
    using b(5) by (rule split_lines_plain)
  then have sl: "split_lines (lines st) = split_lines L @ F # body"
    using b(1) by (simp add: split_lines_append)
  have "scan_loop start (F # body) s0 w2 =
     (Inr \<lparr>lines = L @ F # body, inCodeBlock = True, codeBlock = F # body\<rparr>, w2)"
    using scan_open_block[OF s0(3) b(3,4), of start w2] s0(2) by simp
  then show ?thesis
    unfolding sl using s0(1) b(1) by (simp add: scan_loop_append)
qed

lemma dropCR_subset: "set (dropCR p) \<subseteq> set p"
  by (auto simp: dropCR_def dest: in_set_butlastD)

lemma dropCR_length: "length (dropCR p) \<le> length p"
  by (simp add: dropCR_def)

lemma scanner_tokens:
  "NL \<notin> set q \<Longrightarrow> t \<in> set (fst (scanner q bytes)) \<Longrightarrow> NL \<notin> set t \<and> length t < MaxScanTokenSize"
proof (induction bytes arbitrary: q)
  case Nil
  then show ?case
    using dropCR_subset[of q] dropCR_length[of q] by (auto split: if_splits)
next
  case (Cons c cs)
  show ?case
  proof (cases "MaxScanTokenSize \<le> length q")
    case True
    with Cons.prems show ?thesis by simp
  next
    case short: False
    show ?thesis
    proof (cases "c = NL")
      case True
      with short Cons.prems(2) have "t = dropCR q \<or> t \<in> set (fst (scanner [] cs))"
        by (auto split: prod.splits)
      then show ?thesis
      proof
        assume "t = dropCR q"
        then show ?thesis
          using dropCR_subset[of q] dropCR_length[of q] short Cons.prems(1) by auto
      next
        assume "t \<in> set (fst (scanner [] cs))"
        then show ?thesis using Cons.IH[of "[]"] by simp
      qed
    next
      case False
      with short Cons.prems(2) have "t \<in> set (fst (scanner (q @ [c]) cs))" by simp
      then show ?thesis using Cons.IH[of "q @ [c]"] Cons.prems(1) False by simp
    qed
  qed
qed

lemma scanner_line:
  "NL \<notin> set p \<Longrightarrow> length (q @ p) < MaxScanTokenSize \<Longrightarrow>
   scanner q (p @ NL # rest) = (dropCR (q @ p) # fst (scanner [] rest), snd (scanner [] rest))"
  by (induction p arbitrary: q) (auto split: prod.splits)

lemma scanner_last:
  "NL \<notin> set p \<Longrightarrow> length (q @ p) < MaxScanTokenSize \<Longrightarrow>
   scanner q p = (if q @ p = [] then [] else [dropCR (q @ p)], None)"
  by (induction p arbitrary: q) auto

lemma scanner_Join:
  assumes "\<forall>p\<in>set ps. NL \<notin> set p \<and> length p < MaxScanTokenSize \<and> dropCR p = p"
    and "ps \<noteq> []" and "last ps \<noteq> []"
  shows "scanner [] (Join ps [NL]) = (ps, None)"
  using assms
proof (induction ps)
  case Nil
  then show ?case by simp
next
  case (Cons p ps)
  show ?case
  proof (cases "ps = []")
    case True
    with Cons.prems show ?thesis using scanner_last[of p "[]"] by simp
  next
    case False
    with Cons.prems have ih: "scanner [] (Join ps [NL]) = (ps, None)"
      by (intro Cons.IH) simp_all
    have "scanner [] (p @ NL # Join ps [NL]) = (dropCR ([] @ p) # fst (scanner [] (Join ps [NL])),
             snd (scanner [] (Join ps [NL])))"
      using Cons.prems(1) by (intro scanner_line) simp_all
    with ih False Cons.prems(1) show ?thesis by (simp add: Join_Cons)
  qed
qed

lemma Join_append:
  "a \<noteq> [] \<Longrightarrow> b \<noteq> [] \<Longrightarrow> Join (a @ b) sep = Join a sep @ sep @ Join b sep"
  by (induction a) (auto simp: Join_Cons)

lemma split_lines_Nil: "(split_lines xs = []) = (xs = [])"
  by (cases xs) (auto simp: split_lines_def Split_not_Nil)

lemma Join_split_lines: "Join (split_lines xs) [NL] = Join xs [NL]"
proof (induction xs)
  case Nil
  show ?case by (simp add: split_lines_def)
next
  case (Cons x xs)
  have c: "split_lines (x # xs) = Split x NL @ split_lines xs" by (simp add: split_lines_def)
  show ?case
  proof (cases "xs = []")
    case True
    then show ?thesis by (simp add: split_lines_def Join_Split)
  next
    case False
    then have "split_lines xs \<noteq> []" by (simp add: split_lines_Nil)
    then show ?thesis
      unfolding c using Cons False by (simp add: Join_append Split_not_Nil Join_Split Join_Cons)
  qed
qed

lemma last_split_lines:
  "xs \<noteq> [] \<Longrightarrow> NL \<notin> set (last xs) \<Longrightarrow> last (split_lines xs) = last xs"
proof (induction xs)
  case Nil
  then show ?case by simp
next
  case (Cons x xs)
  have c: "split_lines (x # xs) = Split x NL @ split_lines xs" by (simp add: split_lines_def)
  show ?case
  proof (cases "xs = []")
    case True
    with Cons.prems show ?thesis by (simp add: split_lines_def Split_no_sep)
  next
    case False
    then have "split_lines xs \<noteq> []" by (simp add: split_lines_Nil)
    with Cons False show ?thesis unfolding c by simp
  qed
qed

lemma Split_piece_subset: "p \<in> set (Split s sep) \<Longrightarrow> set p \<subseteq> set s"
proof (induction s arbitrary: p)
  case Nil
  then show ?case by simp
next
  case (Cons c s)
  obtain t ts where ts: "Split s sep = t # ts" using Split_not_Nil[of s sep] by (cases "Split s sep") auto
  show ?case
  proof (cases "c = sep")
    case True
    with Cons.prems have "p = [] \<or> p \<in> set (Split s sep)" by simp
    then show ?thesis using Cons.IH by auto
  next
    case False
    with Cons.prems ts have "p = c # t \<or> p \<in> set ts" by simp
    then show ?thesis
    proof
      assume "p = c # t"
      moreover have "set t \<subseteq> set s" using Cons.IH[of t] ts by simp
      ultimately show ?thesis by auto
    next
      assume "p \<in> set ts"
      then have "set p \<subseteq> set s" using Cons.IH[of p] ts by simp
      then show ?thesis by auto
    qed
  qed
qed

lemma execCommand_no_CR: "execCommand start w cmd = (Inr out, w') \<Longrightarrow> CR \<notin> set out"
  by (auto simp: execCommand_def Let_def split: prod.splits option.splits sum.splits if_splits)

lemma step_lines_shape:
  assumes "step start st w l = (Inr st', w')"
  shows "lines st' = lines st @ [l]
         \<or> (\<exists>n out. lines st' = take n (lines st @ [l]) @ [out, fence] \<and> inCodeBlock st
               \<and> HasPrefix l fence \<and> HasPrefix ((codeBlock st @ [l]) ! 1) ''> ''
               \<and> execCommand start w (codeBlockCommand ((codeBlock st @ [l]) ! 1)) = (Inr out, w'))"
proof (cases "inCodeBlock st \<and> HasPrefix l fence \<and> HasPrefix ((codeBlock st @ [l]) ! 1) ''> ''")
  case False
  with assms have "lines st' = lines st @ [l]"
    by (auto simp: step_def Let_def split: if_splits)
  then show ?thesis by simp
next
  case True
  obtain r v where e: "execCommand start w (codeBlockCommand ((codeBlock st @ [l]) ! 1)) = (r, v)"
    by (cases "execCommand start w (codeBlockCommand ((codeBlock st @ [l]) ! 1))")
  let ?n = "nat (int (length (lines st @ [l])) - int (length (codeBlock st @ [l])) + 2)"
  from assms True e obtain out where "r = Inr out" "v = w'"
    and "lines st' = take ?n (lines st @ [l]) @ [out, fence]"
    by (cases r) (auto simp: step_def Let_def simp del: take_append split: if_splits)
  with e True show ?thesis by blast
qed

lemma step_last_line:
  assumes "step start st w l = (Inr st', w')"
  shows "lines st' \<noteq> [] \<and> (last (lines st') = l \<or> last (lines st') = fence)"
  using step_lines_shape[OF assms] by auto

lemma step_block:
  assumes "step start st w l = (Inr st', w')"
  shows "inCodeBlock st' = (if HasPrefix l fence then \<not> inCodeBlock st else inCodeBlock st)
         \<and> codeBlock st' = (if inCodeBlock st then codeBlock st @ [l]
                             else if HasPrefix l fence then [l] else codeBlock st)"
  using assms by (auto simp: step_def Let_def split: if_splits prod.splits sum.splits)

lemma storable_fence: "storable fence"
  by (simp add: storable_def fence_def MaxScanTokenSize_def dropCR_def)

lemma storable_line:
  "NL \<notin> set l \<Longrightarrow> length l < MaxScanTokenSize \<Longrightarrow> dropCR l = l \<Longrightarrow> storable l"
  by (simp add: storable_def Split_no_sep)

lemma storable_output:
  assumes "execCommand start w (codeBlockCommand D) = (Inr out, w')"
    and "R (codeBlockCommand D) = Inr out" and "output_ok R D"
  shows "storable out"
proof -
  have cr: "CR \<notin> set out" using assms(1) by (rule execCommand_no_CR)
  have "dropCR p = p" if "p \<in> set (Split out NL)" for p
  proof -
    have "set p \<subseteq> set out" using that by (rule Split_piece_subset)
    with cr have "CR \<notin> set p" by auto
    then show ?thesis by (cases p rule: rev_cases) (auto simp: dropCR_def)
  qed
  moreover have "length p < MaxScanTokenSize" if "p \<in> set (Split out NL)" for p
    using that assms(2,3) unfolding output_ok_def by blast
  ultimately show ?thesis by (simp add: storable_def)
qed

lemma step_storable:
  assumes ex: "\<And>v cmd. execCommand start v cmd = (R cmd, v)"
    and "storable l"
    and cl: "inCodeBlock st \<Longrightarrow> HasPrefix l fence \<Longrightarrow> HasPrefix ((codeBlock st @ [l]) ! 1) ''> ''
               \<Longrightarrow> output_ok R ((codeBlock st @ [l]) ! 1)"
    and "\<forall>x\<in>set (lines st). storable x"
    and "step start st w l = (Inr st', w')"
  shows "\<forall>x\<in>set (lines st'). storable x"
proof -
  have t: "\<forall>x\<in>set (take n (lines st @ [l])). storable x" for n
    using assms(2,4) by (auto dest!: in_set_takeD)
  from step_lines_shape[OF assms(5)] show ?thesis
  proof
    assume "lines st' = lines st @ [l]"
    with assms(2,4) show ?thesis by simp
  next
    assume "\<exists>n out. lines st' = take n (lines st @ [l]) @ [out, fence] \<and> inCodeBlock st
               \<and> HasPrefix l fence \<and> HasPrefix ((codeBlock st @ [l]) ! 1) ''> ''
               \<and> execCommand start w (codeBlockCommand ((codeBlock st @ [l]) ! 1)) = (Inr out, w')"
    then obtain n out where l': "lines st' = take n (lines st @ [l]) @ [out, fence]"
      and inb: "inCodeBlock st" and fl: "HasPrefix l fence"
      and d: "HasPrefix ((codeBlock st @ [l]) ! 1) ''> ''"
      and e: "execCommand start w (codeBlockCommand ((codeBlock st @ [l]) ! 1)) = (Inr out, w')"
      by blast
    have a: "output_ok R ((codeBlock st @ [l]) ! 1)" using inb fl d by (rule cl)
    have r: "R (codeBlockCommand ((codeBlock st @ [l]) ! 1)) = Inr out"
      using e by (simp add: ex)
    have so: "storable out" using e r a by (rule storable_output)
    have "\<forall>x\<in>set (take n (lines st @ [l]) @ [out, fence]). storable x"
      using t[of n] so storable_fence by (simp del: take_append)
    with l' show ?thesis by simp
  qed
qed

lemma closing_output_ok:
  assumes "\<forall>b\<in>set (blocks cur (l # ls)). eligible b \<longrightarrow> output_ok R (hd (inner_lines b))"
    and "open_block cur st" and "inCodeBlock st" and "codeBlock st \<noteq> []"
    and "HasPrefix l fence" and "HasPrefix ((codeBlock st @ [l]) ! 1) ''> ''"
  shows "output_ok R ((codeBlock st @ [l]) ! 1)"
proof -
  from assms(2,3) have cur: "cur = Some (codeBlock st)"
    by (cases cur) (simp_all add: open_block_def)
  have tl: "tl (codeBlock st) \<noteq> []"
  proof
    assume "tl (codeBlock st) = []"
    with assms(4) have "(codeBlock st @ [l]) ! 1 = l" by (cases "codeBlock st") auto
    with assms(5,6) show False using fence_not_directive by auto
  qed
  then obtain F D inner where cb: "codeBlock st = F # D # inner"
    by (cases "codeBlock st"; cases "tl (codeBlock st)") auto
  have il: "inner_lines (codeBlock st @ [l]) = D # inner"
    by (simp add: cb inner_lines_def)
  have el: "eligible (codeBlock st @ [l])"
    using assms(6) by (simp add: eligible_def il) (simp add: cb)
  have "codeBlock st @ [l] \<in> set (blocks cur (l # ls))"
    using cur assms(5) by simp
  with assms(1) el have "output_ok R (hd (inner_lines (codeBlock st @ [l])))" by blast
  then show ?thesis by (simp add: il) (simp add: cb)
qed

lemma blocks_next:
  assumes "open_block cur st" and "step start st w l = (Inr st', w')"
  shows "\<exists>cur'. open_block cur' st' \<and> set (blocks cur' ls) \<subseteq> set (blocks cur (l # ls))"
proof (cases cur)
  case None
  with assms(1) have out: "\<not> inCodeBlock st" by (simp add: open_block_def)
  show ?thesis
  proof (cases "HasPrefix l fence")
    case True
    with out step_block[OF assms(2)] have "open_block (Some [l]) st'" by (simp add: open_block_def)
    moreover have "set (blocks (Some [l]) ls) \<subseteq> set (blocks cur (l # ls))" using None True by simp
    ultimately show ?thesis by blast
  next
    case False
    with out step_block[OF assms(2)] have "open_block None st'" by (simp add: open_block_def)
    moreover have "set (blocks None ls) \<subseteq> set (blocks cur (l # ls))" using None False by simp
    ultimately show ?thesis by blast
  qed
next
  case (Some b)
  with assms(1) have inb: "inCodeBlock st" "codeBlock st = b" by (simp_all add: open_block_def)
  show ?thesis
  proof (cases "HasPrefix l fence")
    case True
    with inb step_block[OF assms(2)] have "open_block None st'" by (simp add: open_block_def)
    moreover have "set (blocks None ls) \<subseteq> set (blocks cur (l # ls))" using Some True by auto
    ultimately show ?thesis by blast
  next
    case False
    with inb step_block[OF assms(2)] have "open_block (Some (b @ [l])) st'"
      by (simp add: open_block_def)
    moreover have "set (blocks (Some (b @ [l])) ls) \<subseteq> set (blocks cur (l # ls))"
      using Some False by simp
    ultimately show ?thesis by blast
  qed
qed

lemma rescan_inv_block: "rescan_inv start w2 st \<Longrightarrow> inCodeBlock st \<Longrightarrow> codeBlock st \<noteq> []"
  by (auto simp: rescan_inv_def)

lemma scan_loop_second:
  assumes ex: "\<And>v cmd. execCommand start v cmd = (R cmd, v)"
    and "\<forall>l\<in>set ls. NL \<notin> set l \<and> storable l"
    and "\<forall>b\<in>set (blocks cur ls). eligible b \<longrightarrow> output_ok R (hd (inner_lines b))"
    and "open_block cur st"
    and "rescan_inv start w2 st"
    and "\<forall>x\<in>set (lines st). storable x"
    and "scan_loop start ls st w = (Inr st', w')"
  shows "rescan_inv start w2 st' \<and> (\<forall>x\<in>set (lines st'). storable x)"
  using assms(2-7)
proof (induction ls arbitrary: cur st w)
  case Nil
  then show ?case by simp
next
  case (Cons l ls)
  from Cons.prems(6) obtain st1 w1 where s: "step start st w l = (Inr st1, w1)"
    and r: "scan_loop start ls st1 w1 = (Inr st', w')"
    by (auto split: prod.splits sum.splits)
  have l: "NL \<notin> set l" "storable l" using Cons.prems(1) by simp_all
  have cl: "output_ok R ((codeBlock st @ [l]) ! 1)"
    if "inCodeBlock st" "HasPrefix l fence" "HasPrefix ((codeBlock st @ [l]) ! 1) ''> ''"
    using Cons.prems(2,3) that(1) rescan_inv_block[OF Cons.prems(4) that(1)] that(2,3)
    by (rule closing_output_ok)
  have 1: "rescan_inv start w2 st1"
    using ex l(1) cl Cons.prems(4) s by (rule step_rescan_inv)
  have 2: "\<forall>x\<in>set (lines st1). storable x"
    using ex l(2) cl Cons.prems(5) s by (rule step_storable)
  from blocks_next[OF Cons.prems(3) s, of ls] obtain cur' where
    c: "open_block cur' st1" "set (blocks cur' ls) \<subseteq> set (blocks cur (l # ls))" by blast
  have 3: "\<forall>b\<in>set (blocks cur' ls). eligible b \<longrightarrow> output_ok R (hd (inner_lines b))"
    using Cons.prems(2) c(2) by blast
  have 4: "\<forall>l\<in>set ls. NL \<notin> set l \<and> storable l" using Cons.prems(1) by simp
  show ?case using 4 3 c(1) 1 2 r by (rule Cons.IH)
qed

lemma scan_loop_last_line:
  assumes "ls \<noteq> []" and "scan_loop start ls st w = (Inr st', w')"
  shows "lines st' \<noteq> [] \<and> (last (lines st') = last ls \<or> last (lines st') = fence)"
  using assms
proof (induction ls arbitrary: st w)
  case Nil
  then show ?case by simp
next
  case (Cons l ls)
  from Cons.prems(2) obtain st1 w1 where s: "step start st w l = (Inr st1, w1)"
    and r: "scan_loop start ls st1 w1 = (Inr st', w')"
    by (auto split: prod.splits sum.splits)
  show ?case
  proof (cases "ls = []")
    case True
    with r have "st' = st1" by simp
    with step_last_line[OF s] True show ?thesis by simp
  next
    case False
    with Cons.IH[OF False r] show ?thesis by simp
  qed
qed

lemma scanner_rescan:
  assumes "\<forall>x\<in>set L. storable x"
    and "L \<noteq> [] \<longrightarrow> last L \<noteq> [] \<and> NL \<notin> set (last L)"
  shows "scanner [] (Join L [NL]) = (split_lines L, None)"
proof (cases "L = []")
  case True
  then show ?thesis by (simp add: split_lines_def MaxScanTokenSize_def)
next
  case False
  have p: "\<forall>p\<in>set (split_lines L). NL \<notin> set p \<and> length p < MaxScanTokenSize \<and> dropCR p = p"
    using assms(1) by (auto simp: split_lines_def storable_def dest: Split_piece_no_sep)
  have n: "split_lines L \<noteq> []" using False by (simp add: split_lines_Nil)
  have l: "last (split_lines L) \<noteq> []"
    using False assms(2) by (simp add: last_split_lines)
  have "scanner [] (Join (split_lines L) [NL]) = (split_lines L, None)"
    using p n l by (rule scanner_Join)
  then show ?thesis by (simp add: Join_split_lines)
qed

lemma echo_start_pure: "execCommand echo_start v cmd = (echo_run cmd, v)"
  by (simp add: echo_run_def execCommand_def echo_start_def Let_def split: option.splits sum.splits)

section \<open>The claims\<close>

lemmas eval_defs = scan_def step_def Let_def HasPrefix_def fence_def init_state_def execCommand_def
  codeBlockCommand_def echo_start_def output_pty_def

text \<open>
  Claim C3. A block with no inner line, an opening fence line followed at once by a closing
  fence line, after any lines \<open>pre\<close> that end outside a block: when the closing fence is
  read the accumulated block holds both fence lines, so the line at index 1 is there (it is
  the closing fence). The block is not eligible: no command runs, the lines of the block
  stay as they are, and whatever follows, the scan does not panic.
\<close>

theorem empty_block_in_bounds:
  assumes "scan_loop start pre init_state w = (Inr st, w1)" and "\<not> inCodeBlock st"
    and "HasPrefix f1 fence" and "HasPrefix f2 fence"
  shows "scan_loop start (pre @ [f1, f2]) init_state w =
           (Inr \<lparr>lines = lines st @ [f1, f2], inCodeBlock = False, codeBlock = [f1, f2]\<rparr>, w1)
         \<and> fst (scan_loop start (pre @ [f1, f2] @ post) init_state w) \<noteq> Inl Panic"
proof -
  have nd: "\<not> HasPrefix f2 ''> ''" using assms(4) by (rule fence_not_directive)
  have "scan_loop start [f1, f2] st w1 =
          (Inr \<lparr>lines = lines st @ [f1, f2], inCodeBlock = False, codeBlock = [f1, f2]\<rparr>, w1)"
    using assms(2,3,4) nd step_close[of f2 start "lines st" f1 "[]" w1]
    by (simp add: step_open)
  then have a: "scan_loop start (pre @ [f1, f2]) init_state w =
           (Inr \<lparr>lines = lines st @ [f1, f2], inCodeBlock = False, codeBlock = [f1, f2]\<rparr>, w1)"
    using assms(1) by (simp add: scan_loop_append)
  have "block_inv init_state" by (simp add: block_inv_def init_state_def)
  then have "fst (scan_loop start (pre @ [f1, f2] @ post) init_state w) \<noteq> Inl Panic"
    using scan_loop_inv[where st = init_state and start = start and w = w] by simp
  with a show ?thesis by simp
qed

text \<open>
  The theorem of C3 at a title line followed by the empty block \<open>```sh\<close>, \<open>```\<close>.
\<close>

theorem empty_block_in_bounds_witness:
  "scan_loop echo_start ([''# Title''] @ [''```sh'', ''```'']) init_state () =
     (Inr \<lparr>lines = [''# Title'', ''```sh'', ''```''], inCodeBlock = False, codeBlock = [''```sh'', ''```'']\<rparr>, ())
   \<and> fst (scan_loop echo_start ([''# Title''] @ [''```sh'', ''```''] @ [''text'']) init_state ()) \<noteq> Inl Panic"
proof -
  have 1: "scan_loop echo_start [''# Title''] init_state () =
      (Inr \<lparr>lines = [''# Title''], inCodeBlock = False, codeBlock = []\<rparr>, ())"
    by (simp add: eval_defs)
  have 2: "\<not> inCodeBlock \<lparr>lines = [''# Title''], inCodeBlock = False, codeBlock = []\<rparr>" by simp
  have 3: "HasPrefix ''```sh'' fence" by (simp add: eval_defs)
  have 4: "HasPrefix ''```'' fence" by (simp add: eval_defs)
  show ?thesis
    using empty_block_in_bounds[OF 1 2 3 4, of "[''text'']"] by simp
qed


text \<open>
  Claim C9. When the lines end inside a block, an opening fence after lines \<open>pre\<close> that end
  outside a block and no fence line after it, the scan returns the document with every line
  of the open block as it was, after what the scan made of \<open>pre\<close>; no command runs for it
  (the world is the one after \<open>pre\<close>), also when the first inner line is a directive.
\<close>

theorem unterminated_block_unchanged:
  assumes "scan_loop start pre init_state w = (Inr st, w1)" and "\<not> inCodeBlock st"
    and "HasPrefix F fence" and "\<forall>l\<in>set rest. \<not> HasPrefix l fence"
  shows "scan start w (pre @ F # rest) = (Inr (Join (lines st @ F # rest) [NL]), w1)"
  using assms scan_open_block[OF assms(2,3,4), of start w1]
  by (simp add: scan_def scan_loop_append)

text \<open>
  The theorem of C9 at a document that ends in an open block whose first inner line is the
  directive \<open>> echo hi\<close>.
\<close>

theorem unterminated_block_unchanged_witness:
  "scan echo_start () ([''text''] @ ''```'' # [''> echo hi'', ''stale'']) =
     (Inr (Join ([''text''] @ ''```'' # [''> echo hi'', ''stale'']) [NL]), ())"
proof -
  have 1: "scan_loop echo_start [''text''] init_state () =
      (Inr \<lparr>lines = [''text''], inCodeBlock = False, codeBlock = []\<rparr>, ())"
    by (simp add: eval_defs)
  have 2: "\<not> inCodeBlock \<lparr>lines = [''text''], inCodeBlock = False, codeBlock = []\<rparr>" by simp
  have 3: "HasPrefix ''```'' fence" by (simp add: eval_defs)
  have 4: "\<forall>l\<in>set [''> echo hi'', ''stale'']. \<not> HasPrefix l fence" by (simp add: eval_defs)
  show ?thesis
    using unterminated_block_unchanged[OF 1 2 3 4] by simp
qed

text \<open>
  Claim C1, as amended. An eligible block, after lines \<open>pre\<close> that end outside a block:
  the updated block is the opening fence, the directive line, the output of the command as
  one element, and a closing fence of three backticks. The inner lines after the directive
  and the old closing fence are dropped; the directive line stays.
\<close>

theorem eligible_block_splice:
  assumes "scan_loop start pre init_state w = (Inr st, w1)" and "\<not> inCodeBlock st"
    and "HasPrefix F fence" and "HasPrefix D ''> ''"
    and "\<forall>l\<in>set inner. \<not> HasPrefix l fence" and "HasPrefix C fence"
    and "execCommand start w1 (codeBlockCommand D) = (Inr out, w2)"
  shows "scan_loop start (pre @ F # D # inner @ [C]) init_state w =
           (Inr \<lparr>lines = lines st @ [F, D, out, fence], inCodeBlock = False,
                 codeBlock = F # D # inner @ [C]\<rparr>, w2)"
proof -
  have nf: "\<not> HasPrefix D fence" using assms(4) fence_not_directive by blast
  with assms(5) have body: "\<forall>l\<in>set (D # inner). \<not> HasPrefix l fence" by simp
  have "scan_loop start (F # (D # inner) @ [C]) st w1 =
          (Inr \<lparr>lines = lines st @ [F, D, out, fence], inCodeBlock = False,
                codeBlock = F # D # inner @ [C]\<rparr>, w2)"
    using scan_open_block[OF assms(2,3) body, of start w1]
      step_close[OF assms(6), of start "lines st" F "D # inner" w1] assms(4,7)
    using scan_loop_append[of start "F # D # inner" "[C]" st w1]
    by simp
  then show ?thesis
    using assms(1) scan_loop_append[of start pre "F # D # inner @ [C]" init_state w] by simp
qed

text \<open>
  The theorem of C1 at the specification's example, the block \<open>```\<close>, \<open>> echo hi\<close>,
  \<open>stale output\<close>, \<open>```\<close>.
\<close>

theorem eligible_block_splice_witness:
  "scan_loop echo_start ([] @ ''```'' # ''> echo hi'' # [''stale output''] @ [''```'']) init_state () =
     (Inr \<lparr>lines = [] @ [''```'', ''> echo hi'', ''hi'' @ [NL], fence], inCodeBlock = False,
           codeBlock = ''```'' # ''> echo hi'' # [''stale output''] @ [''```'']\<rparr>, ())"
proof -
  have 1: "scan_loop echo_start [] init_state () = (Inr init_state, ())" by simp
  have 2: "\<not> inCodeBlock init_state" by (simp add: init_state_def)
  have 3: "HasPrefix ''```'' fence" by (simp add: eval_defs)
  have 4: "HasPrefix ''> echo hi'' ''> ''" by (simp add: eval_defs)
  have 5: "\<forall>l\<in>set [''stale output'']. \<not> HasPrefix l fence" by (simp add: eval_defs)
  have 7: "execCommand echo_start () (codeBlockCommand ''> echo hi'') = (Inr (''hi'' @ [NL]), ())"
    by (simp add: eval_defs)
  show ?thesis
    using eligible_block_splice[OF 1 2 3 4 5 3 7] by (simp add: init_state_def)
qed

text \<open>
  Claim C1 as it is written fails at the same block: the updated block keeps the directive
  line between the opening fence and the output, and is not the opening fence, the output
  and the closing fence alone.
\<close>

theorem block_discards_directive_counterexample:
  "map_sum id lines (fst (scan_loop echo_start [''```'', ''> echo hi'', ''stale output'', ''```''] init_state ()))
     = Inr [''```'', ''> echo hi'', ''hi'' @ [NL], ''```'']
   \<and> map_sum id lines (fst (scan_loop echo_start [''```'', ''> echo hi'', ''stale output'', ''```''] init_state ()))
     \<noteq> Inr [''```'', ''hi'' @ [NL], ''```'']"
  by (simp add: eval_defs)



text \<open>The definitions to unfold when the workflow is evaluated on an example.\<close>

lemmas world_defs = readme_world_def readup_def scanner_lines.simps MaxScanTokenSize_def dropCR_def
  writeTempFile_def main_def run_cp_def os_Remove_def fail_exit_def

lemma writeTempFile_files:
  "writeTempFile w1 filename content = (Inr tmpName, w2) \<Longrightarrow>
   files w2 = (files w1)(tmpName := Inr (File content None))"
  by (auto simp: writeTempFile_def split: sum.splits)

text \<open>
  Claim C6. When the scan, the scratch file and the diff succeed, and the line read from
  the standard input, trimmed and in lower case, is not \<open>y\<close>, \<open>main\<close> ends with the exit
  status 0 in the world in which it asked: it writes nothing after the prompt. Before the
  prompt it writes the scratch file only, so the original file is as it was at the start,
  provided the commands that run do not touch the original file and the scratch file is a
  new file.
\<close>

theorem decline_leaves_file:
  assumes "filename = (if length (args w) \<noteq> 2 then ''./README.md'' else args w ! 1)"
    and "readup start w filename = (Inr content, w1)"
    and "writeTempFile w1 filename content = (Inr tmpName, w2)"
    and "execCommand start w2 [''diff'', ''-u'', filename, tmpName] = (Inr diffOut, w3)"
    and "ToLower (TrimSpace (ReadString (stdin w3) NL)) \<noteq> ''y''"
    and "\<And>v prog a. files (snd (start v prog a)) filename = files v filename"
    and "tmpName \<noteq> filename"
  shows "main start w = (Inr 0, w3) \<and> files w3 filename = files w filename"
proof -
  have m: "main start w = (Inr 0, w3)"
    using assms(2-5) unfolding main_def Let_def assms(1)[symmetric] by simp
  have "files (snd (readup start w filename)) filename = files w filename"
    using assms(6) by (rule readup_frame[where g = "\<lambda>v. files v filename"])
  then have 1: "files w1 filename = files w filename" using assms(2) by simp
  have 2: "files w2 filename = files w1 filename"
    using writeTempFile_files[OF assms(3)] assms(7) by simp
  have "files (snd (execCommand start w2 [''diff'', ''-u'', filename, tmpName])) filename = files w2 filename"
    using assms(6) by (rule execCommand_frame[where g = "\<lambda>v. files v filename"])
  then have 3: "files w3 filename = files w2 filename" using assms(4) by simp
  from m 1 2 3 show ?thesis by simp
qed

lemma readme_hello:
  "readup echo_start (readme_world (File ''hello'' None) a) ''README.md''
     = (Inr ''hello'', readme_world (File ''hello'' None) a)"
  by (simp add: world_defs eval_defs)

lemma diff_hello:
  "execCommand echo_start v [''diff'', ''-u'', ''README.md'', ''/tmp/readup0''] = (Inr [], v)"
  by (simp add: eval_defs)

text \<open>
  The theorem of C6 at a file \<open>README.md\<close> that holds \<open>hello\<close>, with nothing on the standard
  input (the end of the input is read at once).
\<close>

theorem decline_leaves_file_witness:
  "fst (main echo_start (readme_world (File ''hello'' None) [])) = Inr 0
   \<and> files (snd (main echo_start (readme_world (File ''hello'' None) []))) ''README.md''
       = Inr (File ''hello'' None)"
proof -
  let ?w = "readme_world (File ''hello'' None) []"
  let ?w2 = "?w\<lparr>files := (files ?w)(''/tmp/readup0'' := Inr (File ''hello'' None))\<rparr>"
  have 1: "''README.md'' = (if length (args ?w) \<noteq> 2 then ''./README.md'' else args ?w ! 1)"
    by (simp add: readme_world_def)
  have 2: "readup echo_start ?w ''README.md'' = (Inr ''hello'', ?w)" by (rule readme_hello)
  have 3: "writeTempFile ?w ''README.md'' ''hello'' = (Inr ''/tmp/readup0'', ?w2)"
    by (simp add: writeTempFile_def readme_world_def)
  have 4: "execCommand echo_start ?w2 [''diff'', ''-u'', ''README.md'', ''/tmp/readup0''] = (Inr [], ?w2)"
    by (rule diff_hello)
  have 5: "ToLower (TrimSpace (ReadString (stdin ?w2) NL)) \<noteq> ''y''"
    by (simp add: readme_world_def ReadString_def TrimSpace_def ToLower_def)
  have 6: "\<And>v prog a. files (snd (echo_start v prog a)) ''README.md'' = files v ''README.md''"
    by (simp add: echo_start_def)
  have 7: "''/tmp/readup0'' \<noteq> ''README.md''" by simp
  show ?thesis
    using decline_leaves_file[OF 1 2 3 4 5 6 7] by (simp add: readme_world_def)
qed

text \<open>
  Claim C10. When the scan, the scratch file and the diff succeed, and no command touches
  the scratch file: if the user declines, \<open>main\<close> ends with the exit status 0 and the
  scratch file is still there with the content of the scan; and if at the end the scratch
  file is not there with that content, then the user accepted, \<open>cp\<close> succeeded and the exit
  status is 0 (the removal succeeded).
\<close>

theorem scratch_file_kept_on_decline:
  assumes "filename = (if length (args w) \<noteq> 2 then ''./README.md'' else args w ! 1)"
    and "readup start w filename = (Inr content, w1)"
    and "writeTempFile w1 filename content = (Inr tmpName, w2)"
    and "execCommand start w2 [''diff'', ''-u'', filename, tmpName] = (Inr diffOut, w3)"
    and "\<And>v prog a. files (snd (start v prog a)) tmpName = files v tmpName"
  shows "(ToLower (TrimSpace (ReadString (stdin w3) NL)) \<noteq> ''y''
            \<longrightarrow> main start w = (Inr 0, w3) \<and> files w3 tmpName = Inr (File content None))
         \<and> (files (snd (main start w)) tmpName \<noteq> Inr (File content None)
            \<longrightarrow> ToLower (TrimSpace (ReadString (stdin w3) NL)) = ''y''
                \<and> fst (run_cp w3 tmpName filename) = None
                \<and> fst (main start w) = Inr 0)"
proof -
  have 2: "files w2 tmpName = Inr (File content None)"
    using writeTempFile_files[OF assms(3)] by simp
  have "files (snd (execCommand start w2 [''diff'', ''-u'', filename, tmpName])) tmpName = files w2 tmpName"
    using assms(5) by (rule execCommand_frame[where g = "\<lambda>v. files v tmpName"])
  then have 3: "files w3 tmpName = Inr (File content None)" using assms(4) 2 by simp
  have m: "main start w =
     (if ToLower (TrimSpace (ReadString (stdin w3) NL)) \<noteq> ''y'' then (Inr 0, w3)
      else (case run_cp w3 tmpName filename of
              (Some err, w4) \<Rightarrow> (Inr 1, w4)
            | (None, w4) \<Rightarrow>
                (case os_Remove w4 tmpName of
                   (Some err, w5) \<Rightarrow> (Inr 1, w5)
                 | (None, w5) \<Rightarrow> (Inr 0, w5))))"
    using assms(2-4) unfolding main_def Let_def assms(1)[symmetric] by simp
  have a: "ToLower (TrimSpace (ReadString (stdin w3) NL)) \<noteq> ''y''
            \<longrightarrow> main start w = (Inr 0, w3) \<and> files w3 tmpName = Inr (File content None)"
    using m 3 by simp
  have b: "files (snd (main start w)) tmpName \<noteq> Inr (File content None)
            \<longrightarrow> ToLower (TrimSpace (ReadString (stdin w3) NL)) = ''y''
                \<and> fst (run_cp w3 tmpName filename) = None
                \<and> fst (main start w) = Inr 0"
    using m 3
    by (auto simp: run_cp_def os_Remove_def split: option.splits sum.splits if_splits)
  from a b show ?thesis by blast
qed

text \<open>
  The theorem of C10 at a file that holds \<open>hello\<close>: with the answer \<open>n\<close> the scratch file
  stays, with the answer \<open>Y\<close> it is removed.
\<close>

theorem scratch_file_kept_on_decline_witness:
  "fst (main echo_start (readme_world (File ''hello'' None) (''n'' @ [NL]))) = Inr 0
   \<and> files (snd (main echo_start (readme_world (File ''hello'' None) (''n'' @ [NL])))) ''/tmp/readup0''
       = Inr (File ''hello'' None)
   \<and> files (snd (main echo_start (readme_world (File ''hello'' None) (''Y'' @ [NL])))) ''/tmp/readup0''
       \<noteq> Inr (File ''hello'' None)
   \<and> ToLower (TrimSpace (ReadString (''Y'' @ [NL]) NL)) = ''y''
   \<and> fst (main echo_start (readme_world (File ''hello'' None) (''Y'' @ [NL]))) = Inr 0"
proof -
  have w: "fst (main echo_start (readme_world (File ''hello'' None) a)) = Inr 0
   \<and> files (snd (main echo_start (readme_world (File ''hello'' None) a))) ''/tmp/readup0''
       = Inr (File ''hello'' None)"
    if d: "ToLower (TrimSpace (ReadString a NL)) \<noteq> ''y''" for a
  proof -
    let ?w = "readme_world (File ''hello'' None) a"
    let ?w2 = "?w\<lparr>files := (files ?w)(''/tmp/readup0'' := Inr (File ''hello'' None))\<rparr>"
    have 1: "''README.md'' = (if length (args ?w) \<noteq> 2 then ''./README.md'' else args ?w ! 1)"
      by (simp add: readme_world_def)
    have 2: "readup echo_start ?w ''README.md'' = (Inr ''hello'', ?w)" by (rule readme_hello)
    have 3: "writeTempFile ?w ''README.md'' ''hello'' = (Inr ''/tmp/readup0'', ?w2)"
      by (simp add: writeTempFile_def readme_world_def)
    have 4: "execCommand echo_start ?w2 [''diff'', ''-u'', ''README.md'', ''/tmp/readup0''] = (Inr [], ?w2)"
      by (rule diff_hello)
    have 5: "\<And>v prog a. files (snd (echo_start v prog a)) ''/tmp/readup0'' = files v ''/tmp/readup0''"
      by (simp add: echo_start_def)
    have s: "stdin ?w2 = a" by (simp add: readme_world_def)
    show ?thesis
      using scratch_file_kept_on_decline[OF 1 2 3 4 5] d s by simp
  qed
  have n: "ToLower (TrimSpace (ReadString (''n'' @ [NL]) NL)) \<noteq> ''y''"
    by (simp add: ReadString_def TrimSpace_def ToLower_def space_runes_def HasPrefix_def)
  have y: "ToLower (TrimSpace (ReadString (''Y'' @ [NL]) NL)) = ''y''"
    by (simp add: ReadString_def TrimSpace_def ToLower_def space_runes_def HasPrefix_def char_of_def bit_iff_odd)
  have g: "files (snd (main echo_start (readme_world (File ''hello'' None) (''Y'' @ [NL])))) ''/tmp/readup0''
       \<noteq> Inr (File ''hello'' None)"
    using y readme_hello[of "''Y'' @ [NL]"]
    by (simp add: main_def Let_def readme_world_def writeTempFile_def diff_hello run_cp_def os_Remove_def)
  let ?w = "readme_world (File ''hello'' None) (''Y'' @ [NL])"
  let ?w2 = "?w\<lparr>files := (files ?w)(''/tmp/readup0'' := Inr (File ''hello'' None))\<rparr>"
  have 1: "''README.md'' = (if length (args ?w) \<noteq> 2 then ''./README.md'' else args ?w ! 1)"
    by (simp add: readme_world_def)
  have 2: "readup echo_start ?w ''README.md'' = (Inr ''hello'', ?w)" by (rule readme_hello)
  have 3: "writeTempFile ?w ''README.md'' ''hello'' = (Inr ''/tmp/readup0'', ?w2)"
    by (simp add: writeTempFile_def readme_world_def)
  have 4: "execCommand echo_start ?w2 [''diff'', ''-u'', ''README.md'', ''/tmp/readup0''] = (Inr [], ?w2)"
    by (rule diff_hello)
  have 5: "\<And>v prog a. files (snd (echo_start v prog a)) ''/tmp/readup0'' = files v ''/tmp/readup0''"
    by (simp add: echo_start_def)
  have acc: "fst (main echo_start ?w) = Inr 0"
    using scratch_file_kept_on_decline[OF 1 2 3 4 5] g by simp
  show ?thesis using w[OF n] g y acc by simp
qed

text \<open>
  Claim C2 fails on the code. A file that opens and whose reads fail after the bytes of two
  lines: the scanner keeps the error, \<open>readup\<close> never asks for it, and returns the lines read
  so far as the document, with no error.
\<close>

theorem read_failure_returned_as_success:
  "readup echo_start (readme_world (File (''one'' @ [NL] @ ''two'') (Some (Err ''input/output error''))) []) ''README.md''
     = (Inr (''one'' @ [NL] @ ''two''),
        readme_world (File (''one'' @ [NL] @ ''two'') (Some (Err ''input/output error''))) [])
   \<and> snd (scanner_lines (File (''one'' @ [NL] @ ''two'') (Some (Err ''input/output error''))))
     = Some (Err ''input/output error'')"
  by (simp add: world_defs eval_defs)

text \<open>
  Claim C5, as amended. For a document with no eligible block, read without a read error,
  the output of the scan is the lines the scanner gives, joined by newlines, and no command
  runs: the blocks that are not eligible and the text outside blocks keep their lines. When
  moreover no line of the input ends in a carriage return and every line is shorter than
  65536 bytes, the output is the input byte for byte, without its final newline when it has
  one.
\<close>

theorem no_eligible_round_trip:
  assumes "files w filename = Inr (File bytes None)"
    and "\<forall>b\<in>set (blocks None (fst (scanner [] bytes))). \<not> eligible b"
  shows "readup start w filename = (Inr (Join (fst (scanner [] bytes)) [NL]), w)
         \<and> ((\<forall>l\<in>set (Split bytes NL). length l < MaxScanTokenSize \<and> dropCR l = l)
            \<longrightarrow> readup start w filename = (Inr (without_final_newline bytes), w))"
proof -
  have "\<exists>st'. scan_loop start (fst (scanner [] bytes)) init_state w = (Inr st', w)
          \<and> lines st' = lines init_state @ fst (scanner [] bytes)"
    by (rule scan_loop_no_eligible[where cur = None]) (use assms(2) in \<open>simp_all add: init_state_def\<close>)
  then have a: "readup start w filename = (Inr (Join (fst (scanner [] bytes)) [NL]), w)"
    using assms(1) by (auto simp: readup_def scan_def init_state_def split: prod.splits option.splits)
  have b: "Join (fst (scanner [] bytes)) [NL] = without_final_newline bytes"
    if "\<forall>l\<in>set (Split bytes NL). length l < MaxScanTokenSize \<and> dropCR l = l"
    using scanner_plain[of "[]" bytes] that by simp
  from a b show ?thesis by simp
qed

text \<open>
  The theorem of C5 at a title line followed by a block whose first inner line is \<open>ls\<close>.
\<close>

theorem no_eligible_round_trip_witness:
  "readup echo_start (readme_world (File (''# T'' @ [NL] @ ''```'' @ [NL] @ ''ls'' @ [NL] @ ''```'' @ [NL]) None) []) ''README.md''
     = (Inr (''# T'' @ [NL] @ ''```'' @ [NL] @ ''ls'' @ [NL] @ ''```''),
        readme_world (File (''# T'' @ [NL] @ ''```'' @ [NL] @ ''ls'' @ [NL] @ ''```'' @ [NL]) None) [])"
proof -
  let ?bytes = "''# T'' @ [NL] @ ''```'' @ [NL] @ ''ls'' @ [NL] @ ''```'' @ [NL]"
  let ?w = "readme_world (File ?bytes None) []"
  have t: "fst (scanner [] ?bytes) = [''# T'', ''```'', ''ls'', ''```'']"
    by (simp add: MaxScanTokenSize_def dropCR_def)
  have 1: "files ?w ''README.md'' = Inr (File ?bytes None)" by (simp add: readme_world_def)
  have 2: "\<forall>b\<in>set (blocks None (fst (scanner [] ?bytes))). \<not> eligible b"
    unfolding t by (simp add: HasPrefix_def fence_def eligible_def inner_lines_def)
  have 3: "\<forall>l\<in>set (Split ?bytes NL). length l < MaxScanTokenSize \<and> dropCR l = l"
    by (simp add: MaxScanTokenSize_def dropCR_def)
  show ?thesis
    using no_eligible_round_trip[OF 1 2, of echo_start] 3
    by (simp add: without_final_newline_def)
qed

text \<open>
  Claim C5 as it is written fails at the two lines \<open>a\<close> and \<open>b\<close> with a carriage return
  and a newline between them: the document has no block, and the output has lost the
  carriage return, which is not at the end.
\<close>

theorem carriage_return_counterexample:
  "fst (readup echo_start (readme_world (File (''a'' @ [CR, NL] @ ''b'') None) []) ''README.md'')
     = Inr (''a'' @ [NL] @ ''b'')
   \<and> blocks None (fst (scanner_lines (File (''a'' @ [CR, NL] @ ''b'') None))) = []
   \<and> ''a'' @ [NL] @ ''b'' \<noteq> without_final_newline (''a'' @ [CR, NL] @ ''b'')
   \<and> ''a'' @ [NL] @ ''b'' \<noteq> ''a'' @ [CR, NL] @ ''b''"
  by (simp add: world_defs eval_defs without_final_newline_def)

text \<open>
  Claim C4, as amended. Command execution is a function \<open>R\<close> of the command alone and
  leaves the world as it is. The document is read without a read error; no line the scanner
  gives ends in a carriage return; the last line is not empty; and the output of the
  command of every eligible block has no line that begins with a fence and no line of 65536
  bytes or more. Then, when a first scan gives the document \<open>d1\<close> and the file holds
  \<open>d1\<close>, a second scan gives \<open>d1\<close> again.
\<close>

theorem readup_idempotent:
  assumes ex: "\<And>v cmd. execCommand start v cmd = (R cmd, v)"
    and f1: "files w filename = Inr (File bytes None)"
    and cr: "\<forall>l\<in>set (fst (scanner [] bytes)). dropCR l = l"
    and ok: "\<forall>b\<in>set (blocks None (fst (scanner [] bytes))).
               eligible b \<longrightarrow> output_ok R (hd (inner_lines b))"
    and lst: "fst (scanner [] bytes) \<noteq> [] \<longrightarrow> last (fst (scanner [] bytes)) \<noteq> []"
    and r1: "readup start w filename = (Inr d1, w1)"
    and f2: "files w2 filename = Inr (File d1 None)"
  shows "readup start w2 filename = (Inr d1, w2)"
proof -
  let ?ls = "fst (scanner [] bytes)"
  have sl: "fst (scanner_lines (File bytes None)) = ?ls"
    by (cases "scanner [] bytes") (auto split: option.splits)
  from r1 f1 sl obtain st1 where s1: "scan_loop start ?ls init_state w = (Inr st1, w1)"
    and d1: "d1 = Join (lines st1) [NL]"
    by (auto simp: readup_def scan_def split: prod.splits sum.splits)
  have tok: "\<forall>l\<in>set ?ls. NL \<notin> set l \<and> length l < MaxScanTokenSize"
    using scanner_tokens[of "[]" _ bytes] by simp
  have sto0: "\<forall>l\<in>set ?ls. NL \<notin> set l \<and> storable l"
  proof
    fix l assume l: "l \<in> set ?ls"
    from tok l have 1: "NL \<notin> set l" "length l < MaxScanTokenSize" by simp_all
    from cr l have 2: "dropCR l = l" by blast
    have "storable l" using 1 2 by (rule storable_line)
    with 1(1) show "NL \<notin> set l \<and> storable l" by blast
  qed
  have ob: "open_block None init_state" by (simp add: open_block_def init_state_def)
  have inv0: "rescan_inv start w2 init_state"
    by (simp add: rescan_inv_def rescans_def init_state_def split_lines_def)
  have e0: "\<forall>x\<in>set (lines init_state). storable x" by (simp add: init_state_def)
  have both: "rescan_inv start w2 st1 \<and> (\<forall>x\<in>set (lines st1). storable x)"
    using ex sto0 ok ob inv0 e0 s1 by (rule scan_loop_second)
  then have inv1: "rescan_inv start w2 st1" and sto: "\<forall>x\<in>set (lines st1). storable x"
    by blast+
  from rescan_inv_result[OF inv1] obtain st2 where
    s2: "scan_loop start (split_lines (lines st1)) init_state w2 = (Inr st2, w2)"
    and l2: "lines st2 = lines st1" by blast
  have lastl: "lines st1 \<noteq> [] \<longrightarrow> last (lines st1) \<noteq> [] \<and> NL \<notin> set (last (lines st1))"
  proof
    assume ne: "lines st1 \<noteq> []"
    have "?ls \<noteq> []"
    proof
      assume "?ls = []"
      with s1 have "st1 = init_state" by simp
      with ne show False by (simp add: init_state_def)
    qed
    from scan_loop_last_line[OF this s1]
    have "last (lines st1) = last ?ls \<or> last (lines st1) = fence" by simp
    moreover have "last ?ls \<noteq> [] \<and> NL \<notin> set (last ?ls)"
      using \<open>?ls \<noteq> []\<close> lst tok by simp
    moreover have "fence \<noteq> [] \<and> NL \<notin> set fence" by (simp add: fence_def)
    ultimately show "last (lines st1) \<noteq> [] \<and> NL \<notin> set (last (lines st1))" by auto
  qed
  have "scanner [] d1 = (split_lines (lines st1), None)"
    unfolding d1 using sto lastl by (rule scanner_rescan)
  then have "fst (scanner_lines (File d1 None)) = split_lines (lines st1)" by simp
  then show ?thesis
    using f2 s2 l2 d1 by (simp add: readup_def scan_def)
qed

text \<open>
  The theorem of C4 at a block with the directive \<open>> echo hi\<close> and a stale line: the
  document the first scan gives is given again by the second scan.
\<close>

theorem readup_idempotent_witness:
  "readup echo_start
     (readme_world (File (''```'' @ [NL] @ ''> echo hi'' @ [NL] @ ''hi'' @ [NL, NL] @ ''```'') None) [])
     ''README.md''
   = (Inr (''```'' @ [NL] @ ''> echo hi'' @ [NL] @ ''hi'' @ [NL, NL] @ ''```''),
      readme_world (File (''```'' @ [NL] @ ''> echo hi'' @ [NL] @ ''hi'' @ [NL, NL] @ ''```'') None) [])"
proof -
  let ?bytes = "''```'' @ [NL] @ ''> echo hi'' @ [NL] @ ''old'' @ [NL] @ ''```'' @ [NL]"
  let ?d1 = "''```'' @ [NL] @ ''> echo hi'' @ [NL] @ ''hi'' @ [NL, NL] @ ''```''"
  let ?w = "readme_world (File ?bytes None) []"
  let ?w2 = "readme_world (File ?d1 None) []"
  have t: "fst (scanner [] ?bytes) = [''```'', ''> echo hi'', ''old'', ''```'']"
    by (simp add: MaxScanTokenSize_def dropCR_def)
  have 1: "files ?w ''README.md'' = Inr (File ?bytes None)" by (simp add: readme_world_def)
  have 2: "\<forall>l\<in>set (fst (scanner [] ?bytes)). dropCR l = l"
    unfolding t by (simp add: dropCR_def)
  have b: "blocks None [''```'', ''> echo hi'', ''old'', ''```''] = [[''```'', ''> echo hi'', ''old'', ''```'']]"
    by (simp add: HasPrefix_def fence_def)
  have o: "output_ok echo_run ''> echo hi''"
    by (simp add: output_ok_def echo_run_def eval_defs MaxScanTokenSize_def)
  have 3: "\<forall>b\<in>set (blocks None (fst (scanner [] ?bytes))).
               eligible b \<longrightarrow> output_ok echo_run (hd (inner_lines b))"
    unfolding t b using o by (simp add: inner_lines_def)
  have 4: "fst (scanner [] ?bytes) \<noteq> [] \<longrightarrow> last (fst (scanner [] ?bytes)) \<noteq> []"
    unfolding t by simp
  have 5: "readup echo_start ?w ''README.md'' = (Inr ?d1, ?w)"
    by (simp add: world_defs eval_defs)
  have 6: "files ?w2 ''README.md'' = Inr (File ?d1 None)" by (simp add: readme_world_def)
  show ?thesis
    using readup_idempotent[where start = echo_start and R = echo_run, OF echo_start_pure 1 2 3 4 5 6]
    by simp
qed

text \<open>
  Claim C4 as it is written fails. A document with no command that ends in an empty line
  loses a final newline at each of the first two scans. And for a block whose command
  prints a fence line, \<open>> echo ```\<close>, the second scan reads the printed fence as the end
  of the block and gives a document that is longer than the first.
\<close>

theorem second_run_differs_counterexample:
  "fst (readup echo_start (readme_world (File (''a'' @ [NL, NL]) None) []) ''README.md'')
     = Inr (''a'' @ [NL])
   \<and> fst (readup echo_start (readme_world (File (''a'' @ [NL]) None) []) ''README.md'')
     \<noteq> Inr (''a'' @ [NL])
   \<and> fst (readup echo_start
            (readme_world (File (''```'' @ [NL] @ ''> echo ```'' @ [NL] @ ''```'') None) []) ''README.md'')
     = Inr (''```'' @ [NL] @ ''> echo ```'' @ [NL] @ ''```'' @ [NL, NL] @ ''```'')
   \<and> fst (readup echo_start
            (readme_world (File (''```'' @ [NL] @ ''> echo ```'' @ [NL] @ ''```'' @ [NL, NL] @ ''```'') None) [])
            ''README.md'')
     \<noteq> Inr (''```'' @ [NL] @ ''> echo ```'' @ [NL] @ ''```'' @ [NL, NL] @ ''```'')"
  by (simp add: world_defs eval_defs)

end
